theory Spec2Isabelle
  imports Main "HOL-Library.Multiset"
begin

section \<open>Text input: \<open>getline\<close> and \<open>operator>>\<close>\<close>

text \<open>
  Files are byte strings. \<open>isspace\<close> is the whitespace test of the classic locale,
  which \<open>operator>>\<close> on a string uses to delimit tokens.
\<close>

definition isspace :: "char \<Rightarrow> bool" where
  "isspace c = (c = CHR 0x20 \<or> c = CHR 0x09 \<or> c = CHR 0x0A \<or> c = CHR 0x0B
                \<or> c = CHR 0x0C \<or> c = CHR 0x0D)"

text \<open>
  \<open>getlines_from cur bytes\<close> is the sequence of lines that repeated
  \<open>getline(file, diffLine, '\n')\<close> yields until it fails, \<open>cur\<close> being the part of the
  current line already read. A last line without newline is still a line; at the end of
  the file with nothing read, \<open>getline\<close> fails.
\<close>

fun getlines_from :: "string \<Rightarrow> string \<Rightarrow> string list" where
  "getlines_from cur [] = (if cur = [] then [] else [cur])"
| "getlines_from cur (c # cs) =
     (if c = CHR 0x0A then cur # getlines_from [] cs else getlines_from (cur @ [c]) cs)"

definition getlines :: "string \<Rightarrow> string list" where
  "getlines bytes = getlines_from [] bytes"

text \<open>
  \<open>tokens line\<close> is the sequence of strings that the successful extractions
  \<open>lineStream >> s\<close> from \<open>istringstream lineStream{line}\<close> yield: the maximal runs of
  non-whitespace characters.
\<close>

fun tokens_from :: "string \<Rightarrow> string \<Rightarrow> string list" where
  "tokens_from cur [] = (if cur = [] then [] else [cur])"
| "tokens_from cur (c # cs) =
     (if isspace c then (if cur = [] then tokens_from [] cs else cur # tokens_from [] cs)
      else tokens_from (cur @ [c]) cs)"

definition tokens :: "string \<Rightarrow> string list" where
  "tokens line = tokens_from [] line"

text \<open>
  One \<open>lineStream >> s\<close>, the stream being represented by the tokens it still holds.
  When none is left the extraction fails and \<open>s\<close> keeps its value: the string is erased
  only after the stream's sentry has found a character to read.
\<close>

definition extraction :: "string \<Rightarrow> string list \<Rightarrow> string \<times> string list" where
  "extraction s ts = (case ts of [] \<Rightarrow> (s, []) | t # ts' \<Rightarrow> (t, ts'))"

subsection \<open>Abnormal termination\<close>

text \<open>
  \<open>InvalidArgument\<close> and \<open>OutOfRange\<close> are the exceptions of \<open>std::stoi\<close>, which nothing
  in the program catches. \<open>OutOfBounds\<close> is an unchecked \<open>vector::operator[]\<close> beyond the
  size, \<open>NullDeref\<close> the use of a null stream pointer: both are undefined behaviour.
\<close>

datatype error = InvalidArgument | OutOfRange | OutOfBounds | NullDeref

definition isdigit :: "char \<Rightarrow> bool" where
  "isdigit c = (48 \<le> (of_char c :: nat) \<and> (of_char c :: nat) \<le> 57)"

definition decimal :: "string \<Rightarrow> int" where
  "decimal ds = foldl (\<lambda>a c. 10 * a + ((of_char c :: int) - 48)) 0 ds"

definition INT_MIN :: int where
  "INT_MIN = - 2147483648"

definition INT_MAX :: int where
  "INT_MAX = 2147483647"

text \<open>
  \<open>std::stoi(s)\<close>, base 10: leading whitespace, an optional sign, then the longest run of
  digits; what follows the digits is ignored.
\<close>

definition stoi :: "string \<Rightarrow> error + int" where
  "stoi str =
     (let s = dropWhile isspace str;
          neg = (s \<noteq> [] \<and> hd s = CHR ''-'');
          body = (if s \<noteq> [] \<and> (hd s = CHR ''-'' \<or> hd s = CHR ''+'') then tl s else s);
          ds = takeWhile isdigit body;
          v = (if neg then - decimal ds else decimal ds)
      in if ds = [] then Inl InvalidArgument
         else if v < INT_MIN \<or> INT_MAX < v then Inl OutOfRange
         else Inr v)"

text \<open>
  Addition of two \<open>int\<close> values. Signed overflow is undefined in C++; the model takes
  the two's-complement wrap-around of the supported platforms.
\<close>

definition int_add :: "int \<Rightarrow> int \<Rightarrow> int" where
  "int_add a b = (a + b + 2147483648) mod 4294967296 - 2147483648"

section \<open>Bucket files and the bucket map\<close>

text \<open>
  An \<open>fstream\<close> on a bucket file: whether it is open, and the bytes of the file. The
  bucket map \<open>map<int, fstream*>\<close> is kept as the sequence of its entries in iteration
  order, which for \<open>std::map\<close> is ascending key order; \<open>None\<close> is the null pointer.
\<close>

record fstream =
  is_open :: bool
  content :: string

type_synonym BucketFileMap = "(int \<times> fstream option) list"

text \<open>\<open>buckets.count(level)\<close>.\<close>

fun map_count :: "int \<Rightarrow> BucketFileMap \<Rightarrow> nat" where
  "map_count k [] = 0"
| "map_count k ((k', p) # m) = (if k = k' then 1 else map_count k m)"

text \<open>
  \<open>buckets[level] = p\<close>: the entry is replaced where the key exists and inserted at its
  place in key order otherwise.
\<close>

fun map_assign :: "int \<Rightarrow> fstream option \<Rightarrow> BucketFileMap \<Rightarrow> BucketFileMap" where
  "map_assign k p [] = [(k, p)]"
| "map_assign k p ((k', p') # m) =
     (if k < k' then (k, p) # (k', p') # m
      else if k = k' then (k, p) # m
      else (k', p') # map_assign k p m)"

text \<open>The value of \<open>buckets[level]\<close> for a key that is present.\<close>

fun map_at :: "int \<Rightarrow> BucketFileMap \<Rightarrow> fstream option" where
  "map_at k [] = None"
| "map_at k ((k', p) # m) = (if k = k' then p else map_at k m)"

text \<open>\<open>*stream << str << endl\<close>: nothing is written through a stream that is not open.\<close>

definition stream_write :: "fstream \<Rightarrow> string \<Rightarrow> fstream" where
  "stream_write f str =
     (if is_open f then f\<lparr>content := content f @ str @ [CHR 0x0A]\<rparr> else f)"

section \<open>Bucketizer: \<open>BucketizeDiff\<close>\<close>

text \<open>
  What the body of the \<open>getline\<close> loop does with one line: it returns false from the
  function, goes on with the next line, or seeks to the end of the raw file.
\<close>

datatype line_step = ReturnFalse BucketFileMap | NextLine BucketFileMap | SeekEnd BucketFileMap

text \<open>
  \<open>can_open level\<close> tells whether the bucket file of that level can be opened. The three
  extractions and the \<open>while (lineStream >> s)\<close> loop are written out; \<open>outputLine\<close> is
  the third value of \<open>s\<close> followed by every further token after a tab.
\<close>

definition BucketizeDiff_line ::
    "(int \<Rightarrow> bool) \<Rightarrow> BucketFileMap \<Rightarrow> string \<Rightarrow> error + line_step" where
  "BucketizeDiff_line can_open buckets diffLine =
     (let (s1, ts1) = extraction [] (tokens diffLine)
      in case stoi s1 of
           Inl e \<Rightarrow> Inl e
         | Inr v \<Rightarrow>
             let level = int_add v 513;
                 (s2, ts2) = extraction s1 ts1
             in if map_count level buckets = 0 \<and> \<not> can_open level
                then Inr (ReturnFalse buckets)
                else
                  let buckets1 =
                        (if map_count level buckets = 0
                         then map_assign level (Some \<lparr>is_open = True, content = []\<rparr>) buckets
                         else buckets);
                      (s3, ts3) = extraction s2 ts2;
                      str = s3 @ concat (map (\<lambda>t. CHR 0x09 # t) ts3)
                  in if str \<noteq> ''EOB'' \<and> str \<noteq> ''EOF''
                     then (case map_at level buckets1 of
                             None \<Rightarrow> Inl NullDeref
                           | Some f \<Rightarrow>
                               Inr (NextLine (map_assign level (Some (stream_write f str)) buckets1)))
                     else Inr (SeekEnd buckets1))"

text \<open>The \<open>while (getline(curFile, diffLine, '\n'))\<close> loop over one raw file.\<close>

fun BucketizeDiff_lines ::
    "(int \<Rightarrow> bool) \<Rightarrow> BucketFileMap \<Rightarrow> string list \<Rightarrow> error + (bool \<times> BucketFileMap)" where
  "BucketizeDiff_lines can_open buckets [] = Inr (True, buckets)"
| "BucketizeDiff_lines can_open buckets (diffLine # rest) =
     (case BucketizeDiff_line can_open buckets diffLine of
        Inl e \<Rightarrow> Inl e
      | Inr (ReturnFalse buckets') \<Rightarrow> Inr (False, buckets')
      | Inr (NextLine buckets') \<Rightarrow> BucketizeDiff_lines can_open buckets' rest
      | Inr (SeekEnd buckets') \<Rightarrow> Inr (True, buckets'))"

text \<open>
  The loop over the raw files: the list holds, for \<open>fileNum = 0, 1, ...\<close>, the bytes of
  the raw file of that number, or \<open>None\<close> where it cannot be opened.
\<close>

fun BucketizeDiff_files ::
    "(int \<Rightarrow> bool) \<Rightarrow> BucketFileMap \<Rightarrow> string option list \<Rightarrow> error + (bool \<times> BucketFileMap)" where
  "BucketizeDiff_files can_open buckets [] = Inr (True, buckets)"
| "BucketizeDiff_files can_open buckets (None # files) = Inr (False, buckets)"
| "BucketizeDiff_files can_open buckets (Some bytes # files) =
     (case BucketizeDiff_lines can_open buckets (getlines bytes) of
        Inl e \<Rightarrow> Inl e
      | Inr (False, buckets') \<Rightarrow> Inr (False, buckets')
      | Inr (True, buckets') \<Rightarrow> BucketizeDiff_files can_open buckets' files)"

text \<open>
  \<open>BucketizeDiff\<close>: \<open>mkdir_ok\<close> is the success of creating the bucket directory, \<open>rawDir\<close>
  gives the raw file of each number. The result is the return value and the bucket map,
  which the caller passes by reference.
\<close>

definition BucketizeDiff ::
    "bool \<Rightarrow> (int \<Rightarrow> bool) \<Rightarrow> BucketFileMap \<Rightarrow> (nat \<Rightarrow> string option) \<Rightarrow> int
       \<Rightarrow> error + (bool \<times> BucketFileMap)" where
  "BucketizeDiff mkdir_ok can_open buckets rawDir readNum =
     (if \<not> mkdir_ok then Inr (False, buckets)
      else BucketizeDiff_files can_open buckets (map rawDir [0..<nat readNum]))"

section \<open>Serializer: \<open>SerializeBuckets\<close>\<close>

text \<open>
  The loop over the map. The state of \<open>SerialDiffFile\<close> is the bytes written and its
  failbit. \<open>SerialDiffFile << rdbuf()\<close> writes nothing once the failbit is set, and sets it
  when it inserts no character, which is the case for a bucket file without bytes.
  Each stream is then closed and deleted and its pointer set to null.
\<close>

fun SerializeBuckets_loop ::
    "string \<times> bool \<Rightarrow> BucketFileMap \<Rightarrow> error + ((string \<times> bool) \<times> BucketFileMap)" where
  "SerializeBuckets_loop st [] = Inr (st, [])"
| "SerializeBuckets_loop (out, failbit) ((k, p) # rest) =
     (case p of
        None \<Rightarrow> Inl NullDeref
      | Some f \<Rightarrow>
          let bytes = (if is_open f then content f else []);
              st' = (if failbit then (out, True)
                     else if bytes = [] then (out, True)
                     else (out @ bytes, False))
          in (case SerializeBuckets_loop st' rest of
                Inl e \<Rightarrow> Inl e
              | Inr (st'', rest') \<Rightarrow> Inr (st'', (k, None) # rest')))"

text \<open>
  \<open>SerializeBuckets\<close>: \<open>can_create\<close> tells whether \<open>serialized_diff\<close> can be opened for
  writing. The result is the return value, the bytes of \<open>serialized_diff\<close> if it was
  created, and the bucket map.
\<close>

definition SerializeBuckets ::
    "bool \<Rightarrow> BucketFileMap \<Rightarrow> error + (bool \<times> string option \<times> BucketFileMap)" where
  "SerializeBuckets can_create buckets =
     (if \<not> can_create then Inr (False, None, buckets)
      else case SerializeBuckets_loop ([], False) buckets of
             Inl e \<Rightarrow> Inl e
           | Inr ((out, failbit), buckets') \<Rightarrow> Inr (True, Some out, buckets'))"

section \<open>Event Mapper: \<open>GenerateJSON\<close>\<close>

text \<open>
  The JSON value tree of \<open>json_writer.h\<close>. A \<open>JsonMap\<close> is kept as its entries in the
  order of insertion; \<open>Add\<close> is \<open>std::map::insert\<close>, which leaves the map as it is when
  the key is present.
\<close>

datatype JsonObject =
    JsonNumber int
  | JsonBool bool
  | JsonString string
  | JsonMap "(string \<times> JsonObject) list"
  | JsonArray "JsonObject list"

definition Add :: "string \<Rightarrow> JsonObject \<Rightarrow> (string \<times> JsonObject) list \<Rightarrow> (string \<times> JsonObject) list" where
  "Add key val m = (if key \<in> fst ` set m then m else m @ [(key, val)])"

text \<open>
  \<open>JsonBool\<close> has one constructor, \<open>JsonBool(bool val)\<close>. Where the source passes it a
  string literal, as in \<open>new JsonBool(c ? "true" : "false")\<close>, the argument is a
  \<open>const char*\<close> that is not null, and its conversion to \<open>bool\<close> is \<open>true\<close> whatever the
  characters of the literal are.
\<close>

definition bool_of_literal :: "string \<Rightarrow> bool" where
  "bool_of_literal lit = True"

text \<open>What \<open>lstat\<close> or \<open>_stat\<close> reports for a path; times are \<open>(sec, nsec)\<close>.\<close>

record stat_info =
  st_size :: int
  st_atim :: "int \<times> int"
  st_ctim :: "int \<times> int"
  st_mtim :: "int \<times> int"

definition time_map :: "int \<times> int \<Rightarrow> JsonObject" where
  "time_map t = JsonMap (Add ''sec'' (JsonNumber (fst t)) (Add ''nsec'' (JsonNumber (snd t)) []))"

text \<open>\<open>MakeStatsJsonMap\<close>: the return value and \<open>diffItem\<close> afterwards.\<close>

definition MakeStatsJsonMap ::
    "(string \<Rightarrow> stat_info option) \<Rightarrow> (string \<times> JsonObject) list \<Rightarrow> string \<Rightarrow> string
       \<Rightarrow> bool \<times> (string \<times> JsonObject) list" where
  "MakeStatsJsonMap lstat diffItem snapDir path =
     (let absPath = snapDir @ ''/../../'' @ path
      in case lstat absPath of
           None \<Rightarrow> (False, diffItem)
         | Some s \<Rightarrow>
             (True,
              Add ''path'' (JsonString path)
                (Add ''mtime'' (time_map (st_mtim s))
                  (Add ''ctime'' (time_map (st_ctim s))
                    (Add ''atime'' (time_map (st_atim s))
                      (Add ''size'' (JsonNumber (st_size s)) diffItem))))))"

text \<open>\<open>diffLineList[i]\<close>: \<open>vector::operator[]\<close> does not check the index.\<close>

definition vector_at :: "'a list \<Rightarrow> nat \<Rightarrow> error + 'a" where
  "vector_at v i = (if i < length v then Inr (v ! i) else Inl OutOfBounds)"

text \<open>
  \<open>int split = op.find("_")\<close>: the index of the first underscore, or \<open>npos\<close>, which
  becomes \<open>-1\<close> as an \<open>int\<close>. \<open>op.substr(0, split)\<close> then has the count \<open>npos\<close> and is the
  whole string, and \<open>op.substr(split + 1, op.length())\<close> starts at 0.
\<close>

definition find_underscore :: "string \<Rightarrow> int" where
  "find_underscore op =
     (if CHR ''_'' \<in> set op then int (length (takeWhile (\<lambda>c. c \<noteq> CHR ''_'') op)) else - 1)"

definition entrytype_of :: "string \<Rightarrow> string" where
  "entrytype_of op =
     (let split = find_underscore op in if split = - 1 then op else take (nat split) op)"

definition optype_of :: "string \<Rightarrow> string" where
  "optype_of op =
     (let split = find_underscore op in take (length op) (drop (nat (split + 1)) op))"

text \<open>\<open>optype.find(c) != string::npos\<close>.\<close>

definition has_flag :: "char \<Rightarrow> string \<Rightarrow> bool" where
  "has_flag c optype = (c \<in> set optype)"

text \<open>
  The body of the inner loop after \<open>getline\<close>: the item pushed to \<open>diffItems\<close> for one
  line, or \<open>None\<close> when the entry type is none of \<open>FILE\<close>, \<open>DIR\<close>, \<open>SYM\<close>.
\<close>

definition GenerateJSON_line ::
    "(string \<Rightarrow> stat_info option) \<Rightarrow> string \<Rightarrow> string \<Rightarrow> error + JsonObject option" where
  "GenerateJSON_line lstat snapDir diffLine =
     (let diffLineList = tokens diffLine
      in case vector_at diffLineList 0 of
           Inl e \<Rightarrow> Inl e
         | Inr op \<Rightarrow>
            (case vector_at diffLineList 1 of
               Inl e \<Rightarrow> Inl e
             | Inr path \<Rightarrow>
                 let entrytype = entrytype_of op;
                     optype = optype_of op
                 in if entrytype = ''FILE'' \<or> entrytype = ''DIR''
                    then
                      if optype = ''DELETE''
                      then Inr (Some (JsonMap
                             (Add ''path'' (JsonString path)
                               (Add ''object_type''
                                  (JsonString (if entrytype = ''FILE'' then ''file'' else ''dir''))
                                 (Add ''type'' (JsonString ''delete'') [])))))
                      else if optype = ''RENAME''
                      then (case vector_at diffLineList 2 of
                              Inl e \<Rightarrow> Inl e
                            | Inr path_new \<Rightarrow>
                                Inr (Some (JsonMap
                                  (Add ''path_new'' (JsonString path_new)
                                    (Add ''path_old'' (JsonString path)
                                      (Add ''type'' (JsonString ''rename'') []))))))
                      else
                        let diffItem = snd (MakeStatsJsonMap lstat [] snapDir path)
                        in Inr (Some (JsonMap
                             (Add ''xattr''
                                (JsonBool (bool_of_literal
                                   (if has_flag CHR ''X'' optype then ''true'' else ''false'')))
                               (Add ''stat''
                                  (JsonBool (bool_of_literal
                                     (if has_flag CHR ''S'' optype then ''true'' else ''false'')))
                                 (Add ''modified''
                                    (JsonBool (bool_of_literal
                                       (if has_flag CHR ''M'' optype then ''true'' else ''false'')))
                                   (Add ''created''
                                      (JsonBool (bool_of_literal
                                         (if has_flag CHR ''C'' optype then ''true'' else ''false'')))
                                     (Add ''type''
                                        (JsonString (if entrytype = ''FILE'' then ''file'' else ''dir''))
                                        diffItem)))))))
                    else if entrytype = ''SYM''
                    then
                      if optype = ''DELETE''
                      then (case vector_at diffLineList 1 of
                              Inl e \<Rightarrow> Inl e
                            | Inr path1 \<Rightarrow>
                                Inr (Some (JsonMap
                                  (Add ''path'' (JsonString path1)
                                    (Add ''object_type'' (JsonString ''symlink'')
                                      (Add ''type'' (JsonString ''delete'') []))))))
                      else
                        let diffItem = snd (MakeStatsJsonMap lstat [] snapDir path);
                            diffItem1 = Add ''type'' (JsonString ''symlink'') diffItem
                        in if has_flag CHR ''C'' optype
                           then (case vector_at diffLineList 2 of
                                   Inl e \<Rightarrow> Inl e
                                 | Inr target \<Rightarrow>
                                     Inr (Some (JsonMap
                                       (Add ''stat''
                                          (JsonBool (bool_of_literal
                                             (if has_flag CHR ''S'' optype then ''true'' else ''false'')))
                                         (Add ''target'' (JsonString target)
                                           (Add ''created'' (JsonBool True) diffItem1))))))
                           else Inr (Some (JsonMap
                                  (Add ''stat''
                                     (JsonBool (bool_of_literal
                                        (if has_flag CHR ''S'' optype then ''true'' else ''false'')))
                                    (Add ''created'' (JsonBool False) diffItem1))))
                    else Inr None))"

text \<open>
  The inner loop \<open>while (diffItems.size() < 1000)\<close> on the lines not yet read: the batch,
  the lines left, and \<open>done\<close>.
\<close>

fun GenerateJSON_batch ::
    "(string \<Rightarrow> stat_info option) \<Rightarrow> string \<Rightarrow> JsonObject list \<Rightarrow> string list
       \<Rightarrow> error + (JsonObject list \<times> string list \<times> bool)" where
  "GenerateJSON_batch lstat snapDir diffItems [] =
     (if length diffItems < 1000 then Inr (diffItems, [], True) else Inr (diffItems, [], False))"
| "GenerateJSON_batch lstat snapDir diffItems (diffLine # rest) =
     (if length diffItems < 1000
      then (case GenerateJSON_line lstat snapDir diffLine of
              Inl e \<Rightarrow> Inl e
            | Inr None \<Rightarrow> GenerateJSON_batch lstat snapDir diffItems rest
            | Inr (Some diffItem) \<Rightarrow> GenerateJSON_batch lstat snapDir (diffItems @ [diffItem]) rest)
      else Inr (diffItems, diffLine # rest, False))"

text \<open>
  The outer loop \<open>while (!done)\<close>. \<open>can_open_json n\<close> tells whether \<open>n.json\<close> can be opened
  for writing; \<open>docs\<close> are the documents written so far, each with the number in its
  file name and the items of its array.
\<close>

function GenerateJSON_loop ::
    "(string \<Rightarrow> stat_info option) \<Rightarrow> string \<Rightarrow> (nat \<Rightarrow> bool) \<Rightarrow> nat
       \<Rightarrow> (nat \<times> JsonObject list) list \<Rightarrow> string list
       \<Rightarrow> error + (bool \<times> (nat \<times> JsonObject list) list)" where
  "GenerateJSON_loop lstat snapDir can_open_json jsonFileCount docs lines =
     (case GenerateJSON_batch lstat snapDir [] lines of
        Inl e \<Rightarrow> Inl e
      | Inr (diffItems, rest, dn) \<Rightarrow>
          if diffItems \<noteq> [] \<and> \<not> can_open_json jsonFileCount then Inr (False, docs)
          else
            let docs' = (if diffItems \<noteq> [] then docs @ [(jsonFileCount, diffItems)] else docs)
            in if dn then Inr (True, docs')
               else GenerateJSON_loop lstat snapDir can_open_json (Suc jsonFileCount) docs' rest)"
  by pat_completeness auto
termination
proof (relation "measure (\<lambda>(lstat, snapDir, can_open_json, jsonFileCount, docs, lines). length lines)")
  show "wf (measure (\<lambda>(lstat, snapDir, can_open_json, jsonFileCount, docs, lines). length lines))"
    by simp
next
  fix lstat :: "string \<Rightarrow> stat_info option" and snapDir :: string
    and can_open_json :: "nat \<Rightarrow> bool" and jsonFileCount :: nat
    and docs :: "(nat \<times> JsonObject list) list" and lines :: "string list"
    and r diffItems p rest dn docs'
  assume "GenerateJSON_batch lstat snapDir [] lines = Inr r" "(diffItems, p) = r"
    "(rest, dn) = p" "\<not> dn"
  then have batch: "GenerateJSON_batch lstat snapDir [] lines = Inr (diffItems, rest, dn)"
    by simp
  have shorter: "length rest \<le> length lines \<and>
      (\<not> dn \<and> length diffItems < 1000 \<longrightarrow> length rest < length lines)"
    if "GenerateJSON_batch lstat snapDir diffItems lines = Inr (diffItems', rest, dn)"
    for diffItems lines diffItems' rest dn
    using that
  proof (induction lines arbitrary: diffItems)
    case Nil
    then show ?case by (auto split: if_splits)
  next
    case (Cons diffLine lines)
    show ?case
    proof (cases "length diffItems < 1000")
      case False
      with Cons.prems show ?thesis by auto
    next
      case True
      show ?thesis
      proof (cases "GenerateJSON_line lstat snapDir diffLine")
        case (Inl e)
        with True Cons.prems show ?thesis by simp
      next
        case (Inr r)
        show ?thesis
        proof (cases r)
          case None
          with True Inr Cons.prems
          have "GenerateJSON_batch lstat snapDir diffItems lines = Inr (diffItems', rest, dn)"
            by simp
          from Cons.IH [OF this] show ?thesis by auto
        next
          case (Some diffItem)
          with True Inr Cons.prems
          have "GenerateJSON_batch lstat snapDir (diffItems @ [diffItem]) lines
                  = Inr (diffItems', rest, dn)"
            by simp
          from Cons.IH [OF this] show ?thesis by auto
        qed
      qed
    qed
  qed
  from shorter [OF batch] \<open>\<not> dn\<close> have "length rest < length lines"
    by simp
  then show "((lstat, snapDir, can_open_json, Suc jsonFileCount, docs', rest),
              (lstat, snapDir, can_open_json, jsonFileCount, docs, lines))
             \<in> measure (\<lambda>(lstat, snapDir, can_open_json, jsonFileCount, docs, lines). length lines)"
    by simp
qed

text \<open>
  \<open>GenerateJSON\<close>: \<open>serialFile\<close> holds the bytes of \<open>serialized_diff\<close>, or \<open>None\<close> where it
  cannot be opened. The result is the return value and the documents written.
\<close>

definition GenerateJSON ::
    "(string \<Rightarrow> stat_info option) \<Rightarrow> string \<Rightarrow> (nat \<Rightarrow> bool) \<Rightarrow> string option
       \<Rightarrow> error + (bool \<times> (nat \<times> JsonObject list) list)" where
  "GenerateJSON lstat snapDir can_open_json serialFile =
     (case serialFile of
        None \<Rightarrow> Inr (False, [])
      | Some bytes \<Rightarrow> GenerateJSON_loop lstat snapDir can_open_json 0 [] (getlines bytes))"

section \<open>Stream Reader: \<open>OpenStreamUnreliable\<close>\<close>

text \<open>
  The outcome of one call of \<open>snapDiffFile.open\<close>: the stream is open afterwards, or it is
  not and \<open>errno\<close> holds the given value. The environment is the sequence of outcomes of
  the successive calls (the k-th call, counted from 0, yields \<open>env k\<close>).
\<close>

datatype open_outcome = Opened | OpenFailed int

definition ENOENT :: int where
  "ENOENT = 2"

definition MAX_RETRIES :: nat where
  "MAX_RETRIES = 10"

text \<open>
  The \<open>do { ... } while (numRetries++ < MAX_RETRIES)\<close> loop. \<open>calls\<close> counts the calls of
  \<open>open\<close> made so far; the result is \<open>is_open\<close> after the loop and the number of calls.
\<close>

function OpenStreamUnreliable_loop :: "(nat \<Rightarrow> open_outcome) \<Rightarrow> nat \<Rightarrow> nat \<Rightarrow> bool \<times> nat" where
  "OpenStreamUnreliable_loop env numRetries calls =
     (case env calls of
        Opened \<Rightarrow> (True, Suc calls)
      | OpenFailed errno \<Rightarrow>
          if errno \<noteq> ENOENT then (False, Suc calls)
          else if numRetries < MAX_RETRIES
               then OpenStreamUnreliable_loop env (Suc numRetries) (Suc calls)
               else (False, Suc calls))"
  by pat_completeness auto
termination
  by (relation "measure (\<lambda>(env, numRetries, calls). MAX_RETRIES - numRetries)") auto

text \<open>The return value (0 on success, 1 on failure) and the number of open attempts.\<close>

definition OpenStreamUnreliable :: "(nat \<Rightarrow> open_outcome) \<Rightarrow> int \<times> nat" where
  "OpenStreamUnreliable env =
     (let (is_open, calls) = OpenStreamUnreliable_loop env 0 0
      in (if \<not> is_open then 1 else 0, calls))"

section \<open>Pagination Driver: \<open>ReadRawDiff\<close>\<close>

text \<open>
  What copying an opened page to the local file yields: all its bytes, or the bytes
  copied before the stream reported \<open>bad()\<close>.
\<close>

datatype read_outcome = ReadGood string | ReadBad string

text \<open>
  The upstream producer and the local file system, indexed by the number of calls of
  \<open>snapDiffFile.open\<close> made so far, so that the same page may answer differently each
  time it is tried.
\<close>

record world =
  open_at :: "nat \<Rightarrow> string \<Rightarrow> open_outcome"
  read_at :: "nat \<Rightarrow> string \<Rightarrow> read_outcome"
  local_open :: "nat \<Rightarrow> int \<Rightarrow> bool"

text \<open>
  The variables of \<open>ReadRawDiff\<close>, with the raw files written, the number of \<open>open\<close>
  calls made, and the page names requested so far.
\<close>

record pager =
  eof :: bool
  readNum :: int
  startPoint :: string
  numRetryReads :: nat
  clock :: nat
  rawDir :: "int \<Rightarrow> string option"
  requested :: "string list"

text \<open>The page name on Linux, where \<open>separator\<close> is a slash.\<close>

definition diffFileName :: "string \<Rightarrow> string \<Rightarrow> string \<Rightarrow> string \<Rightarrow> string" where
  "diffFileName snapDir snap1 snap2 cookie = snapDir @ ''/'' @ snap1 @ ''^'' @ snap2 @ ''^'' @ cookie"

text \<open>
  \<open>for (int i = 0; i < 3; ++i) { currCookie = s; lineStream >> s; }\<close> on one line:
  the values of \<open>currCookie\<close> and \<open>s\<close> after the loop.
\<close>

definition cookie_scan :: "string \<Rightarrow> string \<times> string" where
  "cookie_scan diffLine =
     (let (s1, ts1) = extraction [] (tokens diffLine);
          (s2, ts2) = extraction s1 ts1;
          currCookie = s2;
          (s3, ts3) = extraction s2 ts2
      in (currCookie, s3))"

text \<open>
  The \<open>getline\<close> loop over the local copy. After \<open>localFile.close()\<close> the next \<open>getline\<close>
  fails at the end of the (closed) file, which ends the loop with \<open>eof()\<close> set.
\<close>

fun ReadRawDiff_lines :: "pager \<Rightarrow> string list \<Rightarrow> pager" where
  "ReadRawDiff_lines st [] = st"
| "ReadRawDiff_lines st (diffLine # rest) =
     (let (currCookie, s) = cookie_scan diffLine
      in if s = ''EOB'' then st\<lparr>readNum := readNum st + 1\<rparr>
         else if s = ''EOF'' then st\<lparr>readNum := readNum st + 1, eof := True\<rparr>
         else ReadRawDiff_lines (st\<lparr>startPoint := currCookie\<rparr>) rest)"

text \<open>
  One round of the \<open>while (!eof)\<close> loop: \<open>Inl\<close> is the value returned from inside the
  loop, \<open>Inr\<close> the variables at the end of the round. The copy in blocks of \<open>BUFSIZE\<close>
  bytes is taken as a whole. Reading the local copy back is taken not to fail, so that
  the test \<open>!localFile.eof()\<close> after the \<open>getline\<close> loop is false.
\<close>

definition ReadRawDiff_page :: "world \<Rightarrow> string \<Rightarrow> string \<Rightarrow> string \<Rightarrow> pager \<Rightarrow> int + pager" where
  "ReadRawDiff_page w snapDir snap1 snap2 st =
     (let name = diffFileName snapDir snap1 snap2 (startPoint st);
          (status, calls) = OpenStreamUnreliable (\<lambda>k. open_at w (clock st + k) name);
          st1 = st\<lparr>clock := clock st + calls, requested := requested st @ [name]\<rparr>
      in if status = 1 then Inl (- 1)
         else if \<not> local_open w (clock st1) (readNum st1) then Inl (- 1)
         else (case read_at w (clock st1) name of
                 ReadBad bytes \<Rightarrow>
                   if numRetryReads st1 = MAX_RETRIES then Inl (- 1)
                   else Inr (st1\<lparr>numRetryReads := numRetryReads st1 + 1,
                                 rawDir := (rawDir st1)(readNum st1 \<mapsto> bytes)\<rparr>)
               | ReadGood bytes \<Rightarrow>
                   Inr (ReadRawDiff_lines
                          (st1\<lparr>rawDir := (rawDir st1)(readNum st1 \<mapsto> bytes)\<rparr>)
                          (getlines bytes))))"

text \<open>
  The loop may run for ever (a page without sentinel is followed by another page), so it
  is given fuel: \<open>None\<close> when the fuel runs out before the loop ends.
\<close>

fun ReadRawDiff_loop :: "nat \<Rightarrow> world \<Rightarrow> string \<Rightarrow> string \<Rightarrow> string \<Rightarrow> pager \<Rightarrow> (int \<times> pager) option" where
  "ReadRawDiff_loop fuel w snapDir snap1 snap2 st =
     (if eof st then Some (readNum st, st)
      else case fuel of
             0 \<Rightarrow> None
           | Suc fuel' \<Rightarrow>
               (case ReadRawDiff_page w snapDir snap1 snap2 st of
                  Inl r \<Rightarrow> Some (r, st)
                | Inr st' \<Rightarrow> ReadRawDiff_loop fuel' w snapDir snap1 snap2 st'))"

definition ReadRawDiff :: "nat \<Rightarrow> world \<Rightarrow> string \<Rightarrow> string \<Rightarrow> string \<Rightarrow> (int \<times> pager) option" where
  "ReadRawDiff fuel w snapDir snap1 snap2 =
     ReadRawDiff_loop fuel w snapDir snap1 snap2
       \<lparr>eof = False, readNum = 0, startPoint = ''0'', numRetryReads = 0, clock = 0,
        rawDir = (\<lambda>n. None), requested = []\<rparr>"

section \<open>Notions used in the statements\<close>

subsection \<open>Raw lines\<close>

text \<open>
  The normalized level that \<open>BucketizeDiff\<close> computes from the first token of a line,
  and \<open>outputLine.str()\<close> as it builds it for the line.
\<close>

definition line_level :: "string \<Rightarrow> error + int" where
  "line_level diffLine =
     (case stoi (fst (extraction [] (tokens diffLine))) of
        Inl e \<Rightarrow> Inl e
      | Inr v \<Rightarrow> Inr (int_add v 513))"

definition line_str :: "string \<Rightarrow> string" where
  "line_str diffLine =
     (let (s1, ts1) = extraction [] (tokens diffLine);
          (s2, ts2) = extraction s1 ts1;
          (s3, ts3) = extraction s2 ts2
      in s3 @ concat (map (\<lambda>t. CHR 0x09 # t) ts3))"

text \<open>
  The lines at which the loop leaves the raw file, and the lines of a raw file that it
  reads: those up to the first one it stops at.
\<close>

definition stops :: "string \<Rightarrow> bool" where
  "stops diffLine = (line_str diffLine = ''EOB'' \<or> line_str diffLine = ''EOF'')"

fun lines_read :: "string list \<Rightarrow> string list" where
  "lines_read [] = []"
| "lines_read (l # ls) = (if stops l then [l] else l # lines_read ls)"

text \<open>
  The level of a line whose level token \<open>stoi\<close> accepts (0 stands in where it does not),
  and what the loop writes for the lines of a raw file: the level and \<open>outputLine\<close> of
  each line read that it does not stop at.
\<close>

definition level_of :: "string \<Rightarrow> int" where
  "level_of diffLine = (case line_level diffLine of Inl e \<Rightarrow> 0 | Inr level \<Rightarrow> level)"

definition written :: "string list \<Rightarrow> (int \<times> string) list" where
  "written ls = map (\<lambda>l. (level_of l, line_str l)) (filter (\<lambda>l. \<not> stops l) (lines_read ls))"

text \<open>
  The same for a sequence of raw files, as \<open>BucketizeDiff_files\<close> takes them.
\<close>

definition files_read :: "string option list \<Rightarrow> string list" where
  "files_read files =
     concat (map (\<lambda>f. case f of None \<Rightarrow> [] | Some bytes \<Rightarrow> lines_read (getlines bytes)) files)"

definition files_written :: "string option list \<Rightarrow> (int \<times> string) list" where
  "files_written files =
     concat (map (\<lambda>f. case f of None \<Rightarrow> [] | Some bytes \<Rightarrow> written (getlines bytes)) files)"

text \<open>
  The payload of a raw line in the words of the specification: the tokens after level and
  object id, joined by tabs. A sentinel line is one whose payload is \<open>EOB\<close> or \<open>EOF\<close>.
\<close>

fun tab_join :: "string list \<Rightarrow> string" where
  "tab_join [] = []"
| "tab_join (t # ts) = t @ concat (map (\<lambda>u. CHR 0x09 # u) ts)"

definition payload :: "string \<Rightarrow> string" where
  "payload diffLine = tab_join (drop 2 (tokens diffLine))"

definition is_sentinel :: "string \<Rightarrow> bool" where
  "is_sentinel diffLine = (payload diffLine = ''EOB'' \<or> payload diffLine = ''EOF'')"

text \<open>
  The lines of a raw file before its first sentinel line and their payloads for a sequence
  of raw files; the payloads of all lines of the raw files; and those of all lines that
  are no sentinels.
\<close>

definition before_sentinel :: "string list \<Rightarrow> string list" where
  "before_sentinel ls = takeWhile (\<lambda>l. \<not> is_sentinel l) ls"

definition raw_payloads :: "string option list \<Rightarrow> string list" where
  "raw_payloads files =
     concat (map (\<lambda>f. case f of None \<Rightarrow> []
                          | Some bytes \<Rightarrow> map payload (before_sentinel (getlines bytes))) files)"

definition line_payloads :: "string option list \<Rightarrow> string list" where
  "line_payloads files =
     concat (map (\<lambda>f. case f of None \<Rightarrow> [] | Some bytes \<Rightarrow> map payload (getlines bytes)) files)"

definition all_payloads :: "string option list \<Rightarrow> string list" where
  "all_payloads files =
     concat (map (\<lambda>f. case f of None \<Rightarrow> []
                          | Some bytes \<Rightarrow> map payload (filter (\<lambda>l. \<not> is_sentinel l) (getlines bytes)))
                 files)"

text \<open>
  A line with a level that \<open>stoi\<close> accepts, an object id and at least one payload token.
\<close>

definition well_formed :: "string \<Rightarrow> bool" where
  "well_formed diffLine =
     (3 \<le> length (tokens diffLine) \<and>
      (case line_level diffLine of Inl e \<Rightarrow> False | Inr level \<Rightarrow> True))"

subsection \<open>Bucket files\<close>

text \<open>
  The lines of the bucket files, each with the key of its bucket, in map order; the
  lines alone; and the bytes of the bucket file of an entry.
\<close>

definition bucket_records :: "BucketFileMap \<Rightarrow> (int \<times> string) list" where
  "bucket_records buckets =
     concat (map (\<lambda>(k, p). case p of None \<Rightarrow> [] | Some f \<Rightarrow> map (Pair k) (getlines (content f)))
                 buckets)"

definition bucket_lines :: "BucketFileMap \<Rightarrow> string list" where
  "bucket_lines buckets = map snd (bucket_records buckets)"

definition bucket_bytes :: "int \<times> fstream option \<Rightarrow> string" where
  "bucket_bytes entry = (case snd entry of None \<Rightarrow> [] | Some f \<Rightarrow> content f)"

text \<open>
  An entry after \<open>close\<close>, \<open>delete\<close> and the assignment of \<open>nullptr\<close>; a map in which every
  pointer is null; and a map in which no bucket file is without bytes.
\<close>

definition release :: "int \<times> fstream option \<Rightarrow> int \<times> fstream option" where
  "release entry = (fst entry, None)"

definition all_released :: "BucketFileMap \<Rightarrow> bool" where
  "all_released buckets = list_all (\<lambda>(k, p). p = None) buckets"

definition no_empty_bucket :: "BucketFileMap \<Rightarrow> bool" where
  "no_empty_bucket buckets =
     list_all (\<lambda>(k, p). case p of None \<Rightarrow> False | Some f \<Rightarrow> content f \<noteq> []) buckets"

text \<open>
  What the bucketizer maintains: keys ascend, every stream is open, and every bucket
  file is empty or ends with a newline.
\<close>

definition terminated :: "string \<Rightarrow> bool" where
  "terminated bytes = (bytes = [] \<or> last bytes = CHR 0x0A)"

definition stream_ok :: "int \<times> fstream option \<Rightarrow> bool" where
  "stream_ok entry =
     (case snd entry of None \<Rightarrow> False | Some f \<Rightarrow> is_open f \<and> terminated (content f))"

definition bucket_inv :: "BucketFileMap \<Rightarrow> bool" where
  "bucket_inv buckets = (sorted_wrt (<) (map fst buckets) \<and> list_all stream_ok buckets)"

subsection \<open>Lines of the serialized file\<close>

text \<open>
  A first token whose record reads \<open>diffLineList[2]\<close>: the rename of a file or directory,
  or a symlink that is not deleted and has the flag \<open>C\<close>. A line has the tokens that its
  processing reads when it has two, and three where the third is read.
\<close>

definition needs_third :: "string \<Rightarrow> bool" where
  "needs_third op =
     (((entrytype_of op = ''FILE'' \<or> entrytype_of op = ''DIR'') \<and> optype_of op = ''RENAME'') \<or>
      (entrytype_of op = ''SYM'' \<and> optype_of op \<noteq> ''DELETE'' \<and> has_flag CHR ''C'' (optype_of op)))"

definition tokens_suffice :: "string \<Rightarrow> bool" where
  "tokens_suffice diffLine =
     (let diffLineList = tokens diffLine
      in 2 \<le> length diffLineList \<and> (needs_third (diffLineList ! 0) \<longrightarrow> 3 \<le> length diffLineList))"

text \<open>
  A record that the Event Mapper classifies: its entry type is \<open>FILE\<close>, \<open>DIR\<close> or \<open>SYM\<close>.
\<close>

definition classifiable :: "string \<Rightarrow> bool" where
  "classifiable diffLine =
     (case tokens diffLine of
        [] \<Rightarrow> False
      | op # rest \<Rightarrow> entrytype_of op \<in> {''FILE'', ''DIR'', ''SYM''})"

text \<open>
  The items that the lines of the serialized file give rise to, in order, and a field
  of the item made from a line.
\<close>

fun events :: "(string \<Rightarrow> stat_info option) \<Rightarrow> string \<Rightarrow> string list \<Rightarrow> JsonObject list" where
  "events lstat snapDir [] = []"
| "events lstat snapDir (l # ls) =
     (case GenerateJSON_line lstat snapDir l of
        Inr (Some diffItem) \<Rightarrow> diffItem # events lstat snapDir ls
      | _ \<Rightarrow> events lstat snapDir ls)"

definition emitted_field :: "string \<Rightarrow> error + JsonObject option \<Rightarrow> JsonObject option" where
  "emitted_field key r = (case r of Inr (Some (JsonMap m)) \<Rightarrow> map_of m key | _ \<Rightarrow> None)"

text \<open>
  Consecutive batches of at most 1000 items, numbered from \<open>n\<close>.
\<close>

function batches :: "nat \<Rightarrow> 'a list \<Rightarrow> (nat \<times> 'a list) list" where
  "batches n xs = (if xs = [] then [] else (n, take 1000 xs) # batches (Suc n) (drop 1000 xs))"
  by pat_completeness auto
termination
  by (relation "measure (\<lambda>(n, xs). length xs)") auto

subsection \<open>Lines of a page\<close>

text \<open>
  A line with at least three tokens whose third token is no sentinel, the second token of
  a line, and a line whose third token is \<open>EOB\<close>.
\<close>

definition data_line :: "string \<Rightarrow> bool" where
  "data_line diffLine =
     (3 \<le> length (tokens diffLine) \<and> tokens diffLine ! 2 \<noteq> ''EOB'' \<and> tokens diffLine ! 2 \<noteq> ''EOF'')"

definition second_token :: "string \<Rightarrow> string" where
  "second_token diffLine = tokens diffLine ! 1"

definition eob_line :: "string \<Rightarrow> bool" where
  "eob_line diffLine = (3 \<le> length (tokens diffLine) \<and> tokens diffLine ! 2 = ''EOB'')"

text \<open>
  The running cookie after the data lines \<open>pre\<close>, when it was \<open>cookie\<close> before them.
\<close>

definition cookie_after :: "string \<Rightarrow> string list \<Rightarrow> string" where
  "cookie_after cookie pre = (if pre = [] then cookie else second_token (last pre))"

subsection \<open>Environments and inputs of the examples\<close>

text \<open>
  A file with the given lines, each ended by a newline.
\<close>

definition file_of_lines :: "string list \<Rightarrow> string" where
  "file_of_lines ls = concat (map (\<lambda>l. l @ [CHR 0x0A]) ls)"

text \<open>
  Opening a page fails with the not-found condition every time; on the first ten
  attempts only; and with another condition (\<open>EACCES\<close>) at the first attempt.
\<close>

definition always_not_found :: "nat \<Rightarrow> open_outcome" where
  "always_not_found k = OpenFailed ENOENT"

definition found_on_eleventh :: "nat \<Rightarrow> open_outcome" where
  "found_on_eleventh k = (if k < 10 then OpenFailed ENOENT else Opened)"

definition denied_at_once :: "nat \<Rightarrow> open_outcome" where
  "denied_at_once k = OpenFailed 13"

text \<open>
  The variables of \<open>ReadRawDiff\<close> before the first page, and a world in which every page
  opens and holds the single line \<open>0 0 EOF\<close>.
\<close>

definition initial_pager :: pager where
  "initial_pager =
     \<lparr>eof = False, readNum = 0, startPoint = ''0'', numRetryReads = 0, clock = 0,
      rawDir = (\<lambda>n. None), requested = []\<rparr>"

definition one_open_world :: world where
  "one_open_world =
     \<lparr>open_at = (\<lambda>k name. Opened),
      read_at = (\<lambda>k name. ReadGood (file_of_lines [''0 0 EOF''])),
      local_open = (\<lambda>k n. True)\<rparr>"

text \<open>
  Raw files: one with a record after its sentinel line, one with a sentinel line only,
  one with records of two levels whose sentinel line has a level that records have too,
  one with records of the levels 1 and 3 whose sentinel line has the level 2. Every
  bucket file can be opened.
\<close>

definition raw_after_sentinel :: "nat \<Rightarrow> string option" where
  "raw_after_sentinel n =
     Some (file_of_lines [''1 a FILE_C /x'', ''0 0 EOB'', ''2 b FILE_C /y''])"

definition raw_sentinel_only :: "nat \<Rightarrow> string option" where
  "raw_sentinel_only n = Some (file_of_lines [''0 0 EOB''])"

definition raw_two_levels :: "nat \<Rightarrow> string option" where
  "raw_two_levels n =
     Some (file_of_lines [''5 obj123 FILE_DELETE /a/b.txt'', ''-2 obj9 SYM_CM /a/link /a/target'',
                          ''5 obj7 FILE_C /x'', ''-2 0 EOF''])"

definition raw_level_gap :: "nat \<Rightarrow> string option" where
  "raw_level_gap n =
     Some (file_of_lines [''1 a FILE_C /x'', ''3 b FILE_C /y'', ''2 0 EOB''])"

definition every_level :: "int \<Rightarrow> bool" where
  "every_level level = True"

text \<open>
  The bucket maps that the bucketizer leaves for the first, the third and the fourth of
  them.
\<close>

definition buckets_after_sentinel :: BucketFileMap where
  "buckets_after_sentinel =
     [(513, Some \<lparr>is_open = True, content = []\<rparr>),
      (514, Some \<lparr>is_open = True, content = file_of_lines [''FILE_C'' @ [CHR 0x09] @ ''/x'']\<rparr>)]"

definition buckets_two_levels :: BucketFileMap where
  "buckets_two_levels =
     [(511, Some \<lparr>is_open = True,
                   content = file_of_lines [''SYM_CM'' @ [CHR 0x09] @ ''/a/link'' @ [CHR 0x09] @ ''/a/target'']\<rparr>),
      (518, Some \<lparr>is_open = True,
                   content = file_of_lines [''FILE_DELETE'' @ [CHR 0x09] @ ''/a/b.txt'',
                                            ''FILE_C'' @ [CHR 0x09] @ ''/x'']\<rparr>)]"

definition buckets_level_gap :: BucketFileMap where
  "buckets_level_gap =
     [(514, Some \<lparr>is_open = True, content = file_of_lines [''FILE_C'' @ [CHR 0x09] @ ''/x'']\<rparr>),
      (515, Some \<lparr>is_open = True, content = []\<rparr>),
      (516, Some \<lparr>is_open = True, content = file_of_lines [''FILE_C'' @ [CHR 0x09] @ ''/y'']\<rparr>)]"

text \<open>
  The bucket line of the record \<open>-2 obj9 SYM_CM /a/link /a/target\<close>; a serialized file of
  2500 deletions; no path can be stat'ed; every JSON file can be created.
\<close>

definition sym_cm_line :: string where
  "sym_cm_line = ''SYM_CM'' @ [CHR 0x09] @ ''/a/link'' @ [CHR 0x09] @ ''/a/target''"

definition many_deletes :: string where
  "many_deletes = file_of_lines (replicate 2500 ''FILE_DELETE /a'')"

definition no_stat :: "string \<Rightarrow> stat_info option" where
  "no_stat path = None"

definition every_json :: "nat \<Rightarrow> bool" where
  "every_json jsonFileCount = True"

section \<open>Properties of the Stream Reader\<close>

declare OpenStreamUnreliable_loop.simps [simp del]

text \<open>
  The loop stops at the first call of \<open>open\<close> that does not fail with \<open>ENOENT\<close>, or at
  the call made when \<open>numRetries\<close> has reached \<open>MAX_RETRIES\<close>.
\<close>

lemma OpenStreamUnreliable_loop_stop:
  assumes "\<forall>j<n. env (calls + j) = OpenFailed ENOENT"
    and "numRetries + n \<le> MAX_RETRIES"
    and "env (calls + n) \<noteq> OpenFailed ENOENT \<or> numRetries + n = MAX_RETRIES"
  shows "OpenStreamUnreliable_loop env numRetries calls = (env (calls + n) = Opened, Suc (calls + n))"
  using assms
proof (induction n arbitrary: numRetries calls)
  case 0
  then show ?case
    by (subst OpenStreamUnreliable_loop.simps) (auto split: open_outcome.splits)
next
  case (Suc n)
  from Suc.prems(1) have here: "env calls = OpenFailed ENOENT"
    by (metis add.right_neutral zero_less_Suc)
  from Suc.prems(1) have later: "\<forall>j<n. env (Suc calls + j) = OpenFailed ENOENT"
    by (metis Suc_less_eq add_Suc_shift)
  from Suc.prems(2) have less: "numRetries < MAX_RETRIES" and le: "Suc numRetries + n \<le> MAX_RETRIES"
    by simp_all
  from Suc.prems(3) have stop: "env (Suc calls + n) \<noteq> OpenFailed ENOENT \<or> Suc numRetries + n = MAX_RETRIES"
    by simp
  have "OpenStreamUnreliable_loop env numRetries calls
          = OpenStreamUnreliable_loop env (Suc numRetries) (Suc calls)"
    using here less by (subst OpenStreamUnreliable_loop.simps) simp
  also have "\<dots> = (env (Suc calls + n) = Opened, Suc (Suc calls + n))"
    by (rule Suc.IH [OF later le stop])
  finally show ?case by simp
qed

text \<open>
  C4, as the code has it. When the first \<open>n\<close> calls of \<open>open\<close> fail with the not-found
  condition, \<open>n\<close> is at most \<open>MAX_RETRIES\<close> = 10, and call number \<open>n\<close> (counted from 0)
  either does not fail with not-found or is the one after the tenth retry, then
  \<open>OpenStreamUnreliable\<close> makes exactly \<open>n + 1\<close> calls and returns 0 if that last call
  opened the stream and 1 otherwise. So with not-found on every attempt it fails after
  exactly 11 attempts (the first one and 10 retries) and not before, and a failure other
  than not-found ends it at once.
\<close>

theorem OpenStreamUnreliable_attempts:
  assumes "n \<le> MAX_RETRIES"
    and "\<forall>k<n. env k = OpenFailed ENOENT"
    and "env n \<noteq> OpenFailed ENOENT \<or> n = MAX_RETRIES"
  shows "OpenStreamUnreliable env = (if env n = Opened then 0 else 1, Suc n)"
  using OpenStreamUnreliable_loop_stop [of n env 0 0] assms
  by (simp add: OpenStreamUnreliable_def)

theorem OpenStreamUnreliable_attempts_witness:
  "OpenStreamUnreliable always_not_found = (1, 11) \<and>
   OpenStreamUnreliable denied_at_once = (1, 1)"
  using OpenStreamUnreliable_attempts [of 10 always_not_found]
    OpenStreamUnreliable_attempts [of 0 denied_at_once]
  by (simp add: always_not_found_def denied_at_once_def MAX_RETRIES_def ENOENT_def)

text \<open>
  C4 as stated fails: with not-found on every attempt the number of attempts is not 10,
  and when the first ten attempts fail with not-found and the eleventh opens the stream,
  the function succeeds, so it had not failed after ten attempts.
\<close>

theorem OpenStreamUnreliable_ten_counterexample:
  "snd (OpenStreamUnreliable always_not_found) \<noteq> 10 \<and>
   OpenStreamUnreliable found_on_eleventh = (0, 11)"
proof -
  have a: "OpenStreamUnreliable always_not_found = (1, 11)"
    using OpenStreamUnreliable_loop_stop [of 10 always_not_found 0 0]
    by (simp add: always_not_found_def MAX_RETRIES_def OpenStreamUnreliable_def)
  have b: "OpenStreamUnreliable found_on_eleventh = (0, 11)"
    using OpenStreamUnreliable_loop_stop [of 10 found_on_eleventh 0 0]
    by (simp add: found_on_eleventh_def MAX_RETRIES_def OpenStreamUnreliable_def ENOENT_def)
  from a b show ?thesis by simp
qed

section \<open>Properties of the Bucketizer\<close>

subsection \<open>Reading lines and tokens\<close>

lemma getlines_from_newline:
  "getlines_from cur (bytes @ CHR 0x0A # rest) = getlines_from cur (bytes @ [CHR 0x0A]) @ getlines_from [] rest"
  by (induction bytes arbitrary: cur) auto

lemma getlines_from_line:
  "CHR 0x0A \<notin> set str \<Longrightarrow> getlines_from cur (str @ [CHR 0x0A]) = [cur @ str]"
  by (induction str arbitrary: cur) auto

lemma getlines_append:
  assumes "terminated bytes"
  shows "getlines (bytes @ rest) = getlines bytes @ getlines rest"
proof (cases "bytes = []")
  case True
  then show ?thesis by (simp add: getlines_def)
next
  case False
  with assms obtain front where "bytes = front @ [CHR 0x0A]"
    by (metis terminated_def append_butlast_last_id)
  then show ?thesis
    using getlines_from_newline [of "[]" front rest] by (simp add: getlines_def)
qed

lemma getlines_write:
  assumes "terminated bytes" and "CHR 0x0A \<notin> set str"
  shows "getlines (bytes @ str @ [CHR 0x0A]) = getlines bytes @ [str]"
  using getlines_append [OF assms(1), of "str @ [CHR 0x0A]"] getlines_from_line [OF assms(2), of "[]"]
  by (simp add: getlines_def)

lemma tokens_from_nonempty: "[] \<notin> set (tokens_from cur cs)"
  by (induction cur cs rule: tokens_from.induct) simp_all

lemma tokens_from_no_space:
  "list_all (\<lambda>c. \<not> isspace c) cur \<Longrightarrow>
   list_all (list_all (\<lambda>c. \<not> isspace c)) (tokens_from cur cs)"
  by (induction cur cs rule: tokens_from.induct) simp_all

lemma tokens_no_space: "t \<in> set (tokens line) \<Longrightarrow> c \<in> set t \<Longrightarrow> \<not> isspace c"
  using tokens_from_no_space [of "[]" line] by (simp add: tokens_def list_all_iff)

lemma tokens_nonempty: "[] \<notin> set (tokens line)"
  by (simp add: tokens_def tokens_from_nonempty)

lemma tokens_no_newline: "t \<in> set (tokens line) \<Longrightarrow> CHR 0x0A \<notin> set t"
  using tokens_no_space [of t line "CHR 0x0A"] by (auto simp: isspace_def)

lemma tokens_no_tab: "t \<in> set (tokens line) \<Longrightarrow> CHR 0x09 \<notin> set t"
  using tokens_no_space [of t line "CHR 0x09"] by (auto simp: isspace_def)

lemma line_str_cases:
  "line_str line =
     (case tokens line of [] \<Rightarrow> [] | [a] \<Rightarrow> a | [a, b] \<Rightarrow> b | a # b # ts \<Rightarrow> tab_join ts)"
  by (simp add: line_str_def extraction_def split: list.splits)

lemma line_level_cases:
  "line_level line = (case stoi (case tokens line of [] \<Rightarrow> [] | a # ts \<Rightarrow> a) of
                        Inl e \<Rightarrow> Inl e | Inr v \<Rightarrow> Inr (int_add v 513))"
  by (simp add: line_level_def extraction_def split: list.splits)

lemma tab_join_no_newline:
  "\<forall>t \<in> set ts. CHR 0x0A \<notin> set t \<Longrightarrow> CHR 0x0A \<notin> set (tab_join ts)"
  by (cases ts) auto

lemma line_str_no_newline: "CHR 0x0A \<notin> set (line_str line)"
proof -
  have *: "\<forall>t \<in> set (tokens line). CHR 0x0A \<notin> set t"
    by (simp add: tokens_no_newline)
  show ?thesis
  proof (cases "tokens line")
    case Nil
    then show ?thesis by (simp add: line_str_cases)
  next
    case (Cons a as)
    note outer = this
    show ?thesis
    proof (cases as)
      case Nil
      with outer * show ?thesis by (simp add: line_str_cases)
    next
      case (Cons b bs)
      with outer * have "\<forall>t \<in> set bs. CHR 0x0A \<notin> set t" "CHR 0x0A \<notin> set b"
        by simp_all
      with outer Cons tab_join_no_newline [of bs] show ?thesis
        by (cases bs) (simp_all add: line_str_cases)
    qed
  qed
qed

lemma three_tokens:
  assumes "3 \<le> length ts"
  obtains a b c rest where "ts = a # b # c # rest"
proof -
  from assms obtain a ts1 where 1: "ts = a # ts1" by (cases ts) auto
  with assms obtain b ts2 where 2: "ts1 = b # ts2" by (cases ts1) auto
  with 1 assms obtain c ts3 where 3: "ts2 = c # ts3" by (cases ts2) auto
  from 1 2 3 that show thesis by simp
qed

lemma line_str_payload: "3 \<le> length (tokens line) \<Longrightarrow> line_str line = payload line"
  by (erule three_tokens) (simp add: line_str_cases payload_def)

subsection \<open>The bucket map\<close>

lemma map_count_zero: "(map_count k m = 0) = (k \<notin> fst ` set m)"
  by (induction k m rule: map_count.induct) simp_all

lemma keys_map_assign: "fst ` set (map_assign k p m) = insert k (fst ` set m)"
  by (induction k p m rule: map_assign.induct) (simp_all add: insert_commute)

lemma sorted_map_assign:
  "sorted_wrt (<) (map fst m) \<Longrightarrow> sorted_wrt (<) (map fst (map_assign k p m))"
proof (induction m)
  case Nil
  then show ?case by simp
next
  case (Cons e m)
  obtain k' p' where e: "e = (k', p')" by (cases e)
  from Cons.prems e have above: "\<forall>x \<in> fst ` set m. k' < x" and tail: "sorted_wrt (<) (map fst m)"
    by auto
  show ?case
  proof (cases "k < k'")
    case True
    with Cons.prems e above show ?thesis by auto
  next
    case False
    show ?thesis
    proof (cases "k = k'")
      case True
      with Cons.prems e show ?thesis by simp
    next
      case False
      with \<open>\<not> k < k'\<close> have "k' < k" by simp
      with above have "\<forall>x \<in> fst ` set (map_assign k p m). k' < x"
        by (simp add: keys_map_assign)
      with Cons.IH [OF tail] e False \<open>\<not> k < k'\<close> show ?thesis by simp
    qed
  qed
qed

lemma map_at_Some_key: "map_at k m = Some f \<Longrightarrow> k \<in> fst ` set m"
  by (induction k m rule: map_at.induct) (simp_all split: if_splits)

lemma map_at_assign: "map_at k (map_assign k p m) = p"
  by (induction k p m rule: map_assign.induct) simp_all

lemma list_all_map_assign:
  "list_all P m \<Longrightarrow> P (k, p) \<Longrightarrow> list_all P (map_assign k p m)"
  by (induction k p m rule: map_assign.induct) auto

lemma map_at_list_all:
  "list_all P m \<Longrightarrow> k \<in> fst ` set m \<Longrightarrow> P (k, map_at k m)"
  by (induction k m rule: map_at.induct) auto

lemma bucket_records_Cons:
  "bucket_records ((k, p) # m) =
     (case p of None \<Rightarrow> [] | Some f \<Rightarrow> map (Pair k) (getlines (content f))) @ bucket_records m"
  by (simp add: bucket_records_def)

lemma bucket_records_Nil: "bucket_records [] = []"
  by (simp add: bucket_records_def)

lemma bucket_records_new:
  "k \<notin> fst ` set m \<Longrightarrow>
   bucket_records (map_assign k (Some \<lparr>is_open = True, content = []\<rparr>) m) = bucket_records m"
  by (induction k "Some \<lparr>is_open = True, content = []\<rparr>" m rule: map_assign.induct)
     (simp_all add: bucket_records_Cons bucket_records_Nil getlines_def)

lemma bucket_records_write:
  assumes "sorted_wrt (<) (map fst m)" and "map_at k m = Some f" and "is_open f"
    and "terminated (content f)" and "CHR 0x0A \<notin> set str"
  shows "mset (bucket_records (map_assign k (Some (stream_write f str)) m))
           = mset (bucket_records m) + {#(k, str)#}"
  using assms(1,2)
proof (induction m)
  case Nil
  then show ?case by simp
next
  case (Cons e m)
  obtain k' p' where e: "e = (k', p')" by (cases e)
  show ?case
  proof (cases "k = k'")
    case True
    with Cons.prems e have "p' = Some f" by simp
    with True e assms(3-5) show ?thesis
      by (simp add: bucket_records_Cons stream_write_def getlines_write)
  next
    case False
    with Cons.prems e have at: "map_at k m = Some f" by simp
    then have "k \<in> fst ` set m" by (rule map_at_Some_key)
    with Cons.prems(1) e have "k' < k" by auto
    moreover from Cons.prems(1) have "sorted_wrt (<) (map fst m)" by simp
    ultimately show ?thesis
      using Cons.IH at e False by (simp add: bucket_records_Cons)
  qed
qed

subsection \<open>One line of a raw file\<close>

lemma BucketizeDiff_line_unfold:
  "BucketizeDiff_line can_open buckets diffLine =
     (case line_level diffLine of
        Inl e \<Rightarrow> Inl e
      | Inr level \<Rightarrow>
          if map_count level buckets = 0 \<and> \<not> can_open level then Inr (ReturnFalse buckets)
          else
            let buckets1 =
                  (if map_count level buckets = 0
                   then map_assign level (Some \<lparr>is_open = True, content = []\<rparr>) buckets
                   else buckets)
            in if line_str diffLine \<noteq> ''EOB'' \<and> line_str diffLine \<noteq> ''EOF''
               then (case map_at level buckets1 of
                       None \<Rightarrow> Inl NullDeref
                     | Some f \<Rightarrow>
                         Inr (NextLine (map_assign level (Some (stream_write f (line_str diffLine)))
                                          buckets1)))
               else Inr (SeekEnd buckets1))"
proof -
  obtain s1 ts1 where e1: "extraction [] (tokens diffLine) = (s1, ts1)"
    by (cases "extraction [] (tokens diffLine)")
  obtain s2 ts2 where e2: "extraction s1 ts1 = (s2, ts2)"
    by (cases "extraction s1 ts1")
  obtain s3 ts3 where e3: "extraction s2 ts2 = (s3, ts3)"
    by (cases "extraction s2 ts2")
  show ?thesis
    by (simp add: BucketizeDiff_line_def line_level_def line_str_def e1 e2 e3 Let_def
             split: sum.splits option.splits)
qed

lemma bucket_inv_new:
  assumes "bucket_inv b"
  shows "bucket_inv (map_assign level (Some \<lparr>is_open = True, content = []\<rparr>) b)"
proof -
  have "stream_ok (level, Some \<lparr>is_open = True, content = []\<rparr>)"
    by (simp add: stream_ok_def terminated_def)
  with assms show ?thesis
    by (simp add: bucket_inv_def sorted_map_assign list_all_map_assign)
qed

lemma bucket_inv_at:
  assumes "bucket_inv b" and "level \<in> fst ` set b"
  obtains f where "map_at level b = Some f" and "is_open f" and "terminated (content f)"
proof -
  from assms have "list_all stream_ok b"
    by (simp add: bucket_inv_def)
  from map_at_list_all [OF this assms(2)] have "stream_ok (level, map_at level b)" .
  then show thesis
    using that by (cases "map_at level b") (simp_all add: stream_ok_def)
qed

lemma bucket_inv_write:
  assumes "bucket_inv b" and "is_open f"
  shows "bucket_inv (map_assign level (Some (stream_write f str)) b)"
proof -
  have "stream_ok (level, Some (stream_write f str))"
    using assms(2) by (simp add: stream_ok_def terminated_def stream_write_def)
  with assms(1) show ?thesis
    by (simp add: bucket_inv_def sorted_map_assign list_all_map_assign)
qed

lemma BucketizeDiff_line_inv:
  assumes inv: "bucket_inv b" and lev: "line_level l = Inr level"
    and ok: "level \<in> fst ` set b \<or> can_open level"
  shows "\<exists>b'.
    BucketizeDiff_line can_open b l = Inr (if stops l then SeekEnd b' else NextLine b') \<and>
    bucket_inv b' \<and>
    fst ` set b' = insert level (fst ` set b) \<and>
    mset (bucket_records b') =
      mset (bucket_records b) + (if stops l then {#} else {#(level, line_str l)#})"
proof -
  define b1 where "b1 = (if map_count level b = 0
      then map_assign level (Some \<lparr>is_open = True, content = []\<rparr>) b else b)"
  have inv1: "bucket_inv b1"
    using inv by (simp add: b1_def bucket_inv_new)
  have keys1: "fst ` set b1 = insert level (fst ` set b)"
    by (auto simp: b1_def keys_map_assign map_count_zero)
  have recs1: "bucket_records b1 = bucket_records b"
    by (simp add: b1_def bucket_records_new map_count_zero)
  from keys1 have "level \<in> fst ` set b1" by simp
  with inv1 obtain f where f: "map_at level b1 = Some f" "is_open f" "terminated (content f)"
    by (rule bucket_inv_at)
  have run: "BucketizeDiff_line can_open b l =
      (if stops l then Inr (SeekEnd b1)
       else Inr (NextLine (map_assign level (Some (stream_write f (line_str l))) b1)))"
  proof (cases "map_count level b = 0")
    case True
    with ok have "can_open level" by (simp add: map_count_zero)
    with True lev f(1) show ?thesis
      by (simp add: BucketizeDiff_line_unfold b1_def stops_def)
  next
    case False
    with lev f(1) show ?thesis
      by (simp add: BucketizeDiff_line_unfold b1_def stops_def)
  qed
  show ?thesis
  proof (cases "stops l")
    case True
    with run inv1 keys1 recs1 show ?thesis by simp
  next
    case False
    let ?b' = "map_assign level (Some (stream_write f (line_str l))) b1"
    have "bucket_inv ?b'"
      using inv1 f(2) by (rule bucket_inv_write)
    moreover have "fst ` set ?b' = insert level (fst ` set b)"
      by (simp add: keys_map_assign keys1)
    moreover have "mset (bucket_records ?b') = mset (bucket_records b) + {#(level, line_str l)#}"
      using inv1 f line_str_no_newline [of l] recs1
      by (simp add: bucket_records_write bucket_inv_def)
    ultimately show ?thesis
      using run False by simp
  qed
qed

lemma BucketizeDiff_line_error:
  "line_level l = Inl e \<Longrightarrow> BucketizeDiff_line can_open b l = Inl e"
  by (simp add: BucketizeDiff_line_unfold)

lemma BucketizeDiff_line_refused:
  "line_level l = Inr level \<Longrightarrow> level \<notin> fst ` set b \<Longrightarrow> \<not> can_open level \<Longrightarrow>
   BucketizeDiff_line can_open b l = Inr (ReturnFalse b)"
  by (simp add: BucketizeDiff_line_unfold map_count_zero)

subsection \<open>The loops over lines and files\<close>

lemma BucketizeDiff_lines_inv:
  assumes "bucket_inv b" and "BucketizeDiff_lines can_open b ls = Inr (ok, b')"
  shows "bucket_inv b' \<and>
         (ok \<longrightarrow> fst ` set b' = fst ` set b \<union> level_of ` set (lines_read ls) \<and>
                 mset (bucket_records b') = mset (bucket_records b) + mset (written ls))"
  using assms
proof (induction ls arbitrary: b)
  case Nil
  then show ?case by (simp add: written_def)
next
  case (Cons l ls)
  show ?case
  proof (cases "line_level l")
    case (Inl e)
    with Cons.prems(2) show ?thesis
      by (simp add: BucketizeDiff_line_error)
  next
    case (Inr level)
    then have lv: "level_of l = level" by (simp add: level_of_def)
    show ?thesis
    proof (cases "level \<in> fst ` set b \<or> can_open level")
      case False
      with Inr Cons.prems show ?thesis
        by (simp add: BucketizeDiff_line_refused)
    next
      case True
      from BucketizeDiff_line_inv [where can_open = can_open, OF Cons.prems(1) Inr True]
      obtain b1 where step: "BucketizeDiff_line can_open b l = Inr (if stops l then SeekEnd b1 else NextLine b1)"
        and inv1: "bucket_inv b1"
        and keys1: "fst ` set b1 = insert level (fst ` set b)"
        and recs1: "mset (bucket_records b1) =
              mset (bucket_records b) + (if stops l then {#} else {#(level, line_str l)#})"
        by blast
      show ?thesis
      proof (cases "stops l")
        case True
        with step Cons.prems(2) have "ok" "b' = b1" by simp_all
        with True inv1 keys1 recs1 lv show ?thesis
          by (simp add: written_def)
      next
        case False
        with step Cons.prems(2) have "BucketizeDiff_lines can_open b1 ls = Inr (ok, b')"
          by simp
        from Cons.IH [OF inv1 this] False keys1 recs1 lv show ?thesis
          by (auto simp: written_def)
      qed
    qed
  qed
qed

lemma BucketizeDiff_lines_total:
  assumes "bucket_inv b"
    and "\<forall>l \<in> set (lines_read ls). \<exists>level. line_level l = Inr level \<and> can_open level"
  shows "\<exists>b'. BucketizeDiff_lines can_open b ls = Inr (True, b')"
  using assms
proof (induction ls arbitrary: b)
  case Nil
  then show ?case by simp
next
  case (Cons l ls)
  from Cons.prems(2) obtain level where lev: "line_level l = Inr level" and co: "can_open level"
    by (auto split: if_splits)
  from co have "level \<in> fst ` set b \<or> can_open level" by simp
  from BucketizeDiff_line_inv [where can_open = can_open, OF Cons.prems(1) lev this]
  obtain b1 where step: "BucketizeDiff_line can_open b l = Inr (if stops l then SeekEnd b1 else NextLine b1)"
    and inv1: "bucket_inv b1"
    by blast
  show ?case
  proof (cases "stops l")
    case True
    with step show ?thesis by simp
  next
    case False
    with Cons.prems(2)
    have "\<forall>l \<in> set (lines_read ls). \<exists>level. line_level l = Inr level \<and> can_open level"
      by simp
    from Cons.IH [OF inv1 this] step False show ?thesis by simp
  qed
qed

lemma files_read_Cons:
  "files_read (Some bytes # files) = lines_read (getlines bytes) @ files_read files"
  by (simp add: files_read_def)

lemma files_written_Cons:
  "files_written (Some bytes # files) = written (getlines bytes) @ files_written files"
  by (simp add: files_written_def)

lemma BucketizeDiff_files_inv:
  assumes "bucket_inv b" and "BucketizeDiff_files can_open b files = Inr (ok, b')"
  shows "bucket_inv b' \<and>
         (ok \<longrightarrow> fst ` set b' = fst ` set b \<union> level_of ` set (files_read files) \<and>
                 mset (bucket_records b') = mset (bucket_records b) + mset (files_written files))"
  using assms
proof (induction files arbitrary: b)
  case Nil
  then show ?case by (simp add: files_read_def files_written_def)
next
  case (Cons fl files)
  show ?case
  proof (cases fl)
    case None
    with Cons.prems show ?thesis by simp
  next
    case (Some bytes)
    show ?thesis
    proof (cases "BucketizeDiff_lines can_open b (getlines bytes)")
      case (Inl e)
      with Some Cons.prems(2) show ?thesis by simp
    next
      case (Inr r)
      obtain ok1 b1 where r: "r = (ok1, b1)" by (cases r)
      from BucketizeDiff_lines_inv [OF Cons.prems(1) Inr [unfolded r]]
      have inv1: "bucket_inv b1"
        and res1: "ok1 \<longrightarrow> fst ` set b1 = fst ` set b \<union> level_of ` set (lines_read (getlines bytes)) \<and>
                 mset (bucket_records b1) = mset (bucket_records b) + mset (written (getlines bytes))"
        by simp_all
      show ?thesis
      proof (cases ok1)
        case False
        with Some Inr r Cons.prems(2) inv1 show ?thesis by simp
      next
        case True
        with Some Inr r Cons.prems(2)
        have "BucketizeDiff_files can_open b1 files = Inr (ok, b')" by simp
        from Cons.IH [OF inv1 this] res1 True Some show ?thesis
          by (simp add: files_read_Cons files_written_Cons image_Un Un_assoc)
      qed
    qed
  qed
qed

lemma BucketizeDiff_files_total:
  assumes "bucket_inv b"
    and "None \<notin> set files"
    and "\<forall>l \<in> set (files_read files). \<exists>level. line_level l = Inr level \<and> can_open level"
  shows "\<exists>b'. BucketizeDiff_files can_open b files = Inr (True, b')"
  using assms
proof (induction files arbitrary: b)
  case Nil
  then show ?case by simp
next
  case (Cons fl files)
  from Cons.prems(2) obtain bytes where fl: "fl = Some bytes" by (cases fl) auto
  with Cons.prems(3)
  have here: "\<forall>l \<in> set (lines_read (getlines bytes)). \<exists>level. line_level l = Inr level \<and> can_open level"
    and later: "\<forall>l \<in> set (files_read files). \<exists>level. line_level l = Inr level \<and> can_open level"
    by (simp_all add: files_read_Cons)
  from BucketizeDiff_lines_total [OF Cons.prems(1) here]
  obtain b1 where run: "BucketizeDiff_lines can_open b (getlines bytes) = Inr (True, b1)" by blast
  from BucketizeDiff_lines_inv [OF Cons.prems(1) run] have "bucket_inv b1" by simp
  moreover from Cons.prems(2) have "None \<notin> set files" by simp
  ultimately obtain b' where "BucketizeDiff_files can_open b1 files = Inr (True, b')"
    using Cons.IH later by blast
  with fl run show ?case by simp
qed

lemma bucket_inv_empty: "bucket_inv []"
  by (simp add: bucket_inv_def)

subsection \<open>Sentinel lines\<close>

lemma tab_join_Nil: "tab_join ts = [] \<Longrightarrow> ts = [] \<or> ts = [[]]"
  by (cases ts) auto

lemma is_sentinel_three: "is_sentinel l \<Longrightarrow> 3 \<le> length (tokens l)"
proof -
  assume "is_sentinel l"
  then have "tab_join (drop 2 (tokens l)) \<noteq> []"
    by (auto simp: is_sentinel_def payload_def)
  then have "drop 2 (tokens l) \<noteq> []" by auto
  then show ?thesis by simp
qed

lemma is_sentinel_stops: "is_sentinel l \<Longrightarrow> stops l"
  using is_sentinel_three [of l] by (simp add: stops_def is_sentinel_def line_str_payload)

lemma stops_is_sentinel: "3 \<le> length (tokens l) \<Longrightarrow> stops l = is_sentinel l"
  by (simp add: stops_def is_sentinel_def line_str_payload)

lemma BucketizeDiff_line_stops:
  "stops l \<Longrightarrow> BucketizeDiff_line can_open b l = Inr (NextLine b') \<Longrightarrow> False"
  by (auto simp: BucketizeDiff_line_unfold stops_def Let_def split: sum.splits if_splits)

lemma BucketizeDiff_lines_stop:
  assumes "stops sent"
  shows "BucketizeDiff_lines can_open b (pre @ sent # post) = BucketizeDiff_lines can_open b (pre @ [sent])"
proof (induction pre arbitrary: b)
  case Nil
  show ?case
  proof (cases "BucketizeDiff_line can_open b sent")
    case (Inl e)
    then show ?thesis by simp
  next
    case (Inr r)
    with BucketizeDiff_line_stops [OF assms, of can_open b] show ?thesis
      by (cases r) auto
  qed
next
  case (Cons l pre)
  show ?case
  proof (cases "BucketizeDiff_line can_open b l")
    case (Inl e)
    then show ?thesis by simp
  next
    case (Inr r)
    with Cons.IH show ?thesis
      by (cases r) simp_all
  qed
qed

lemma written_Cons:
  "written (l # ls) = (if stops l then [] else (level_of l, line_str l) # written ls)"
  by (simp add: written_def)

lemma written_Nil: "written [] = []"
  by (simp add: written_def)

lemma BucketizeDiff_lines_subset:
  assumes "bucket_inv b" and "BucketizeDiff_lines can_open b ls = Inr (ok, b')"
  shows "set (bucket_records b') \<subseteq> set (bucket_records b) \<union> set (written ls)"
  using assms
proof (induction ls arbitrary: b)
  case Nil
  then show ?case by simp
next
  case (Cons l ls)
  show ?case
  proof (cases "line_level l")
    case (Inl e)
    with Cons.prems(2) show ?thesis
      by (simp add: BucketizeDiff_line_error)
  next
    case (Inr level)
    then have lv: "level_of l = level" by (simp add: level_of_def)
    show ?thesis
    proof (cases "level \<in> fst ` set b \<or> can_open level")
      case False
      with Inr Cons.prems show ?thesis
        by (simp add: BucketizeDiff_line_refused)
    next
      case True
      from BucketizeDiff_line_inv [where can_open = can_open, OF Cons.prems(1) Inr True]
      obtain b1 where step: "BucketizeDiff_line can_open b l = Inr (if stops l then SeekEnd b1 else NextLine b1)"
        and inv1: "bucket_inv b1"
        and recs1: "mset (bucket_records b1) =
              mset (bucket_records b) + (if stops l then {#} else {#(level, line_str l)#})"
        by blast
      from recs1 have set1: "set (bucket_records b1) =
          set (bucket_records b) \<union> (if stops l then {} else {(level, line_str l)})"
      proof -
        from recs1 have "set_mset (mset (bucket_records b1)) =
            set_mset (mset (bucket_records b) + (if stops l then {#} else {#(level, line_str l)#}))"
          by simp
        then show ?thesis by (simp split: if_splits)
      qed
      show ?thesis
      proof (cases "stops l")
        case True
        with step Cons.prems(2) have "b' = b1" by simp
        with True set1 show ?thesis by simp
      next
        case False
        with step Cons.prems(2) have "BucketizeDiff_lines can_open b1 ls = Inr (ok, b')"
          by simp
        from Cons.IH [OF inv1 this]
        have "set (bucket_records b') \<subseteq> set (bucket_records b1) \<union> set (written ls)" .
        moreover from False set1 lv
        have "set (bucket_records b1) = insert (level_of l, line_str l) (set (bucket_records b))"
          by simp
        moreover from False
        have "set (written (l # ls)) = insert (level_of l, line_str l) (set (written ls))"
          by (simp add: written_Cons)
        ultimately show ?thesis by blast
      qed
    qed
  qed
qed

lemma BucketizeDiff_files_subset:
  assumes "bucket_inv b" and "BucketizeDiff_files can_open b files = Inr (ok, b')"
  shows "set (bucket_records b') \<subseteq> set (bucket_records b) \<union> set (files_written files)"
  using assms
proof (induction files arbitrary: b)
  case Nil
  then show ?case by simp
next
  case (Cons fl files)
  show ?case
  proof (cases fl)
    case None
    with Cons.prems show ?thesis by simp
  next
    case (Some bytes)
    show ?thesis
    proof (cases "BucketizeDiff_lines can_open b (getlines bytes)")
      case (Inl e)
      with Some Cons.prems(2) show ?thesis by simp
    next
      case (Inr r)
      obtain ok1 b1 where r: "r = (ok1, b1)" by (cases r)
      from BucketizeDiff_lines_inv [OF Cons.prems(1) Inr [unfolded r]]
      have inv1: "bucket_inv b1" by simp
      from BucketizeDiff_lines_subset [OF Cons.prems(1) Inr [unfolded r]]
      have sub1: "set (bucket_records b1) \<subseteq> set (bucket_records b) \<union> set (written (getlines bytes))" .
      show ?thesis
      proof (cases ok1)
        case False
        with Some Inr r Cons.prems(2) have "b' = b1" by simp
        moreover from Some have "set (files_written (fl # files))
            = set (written (getlines bytes)) \<union> set (files_written files)"
          by (simp add: files_written_Cons)
        ultimately show ?thesis using sub1 by blast
      next
        case True
        with Some Inr r Cons.prems(2)
        have "BucketizeDiff_files can_open b1 files = Inr (ok, b')" by simp
        from Cons.IH [OF inv1 this]
        have "set (bucket_records b') \<subseteq> set (bucket_records b1) \<union> set (files_written files)" .
        moreover from Some have "set (files_written (fl # files))
            = set (written (getlines bytes)) \<union> set (files_written files)"
          by (simp add: files_written_Cons)
        ultimately show ?thesis using sub1 by blast
      qed
    qed
  qed
qed

lemma written_not_sentinel: "(k, s) \<in> set (written ls) \<Longrightarrow> s \<noteq> ''EOB'' \<and> s \<noteq> ''EOF''"
proof -
  assume "(k, s) \<in> set (written ls)"
  then obtain l where "\<not> stops l" and "s = line_str l"
    unfolding written_def by auto
  then show ?thesis by (simp add: stops_def)
qed

lemma files_written_not_sentinel:
  "(k, s) \<in> set (files_written files) \<Longrightarrow> s \<noteq> ''EOB'' \<and> s \<noteq> ''EOF''"
proof (induction files)
  case Nil
  then show ?case by (simp add: files_written_def)
next
  case (Cons fl files)
  show ?case
  proof (cases fl)
    case None
    with Cons show ?thesis by (simp add: files_written_def)
  next
    case (Some bytes)
    with Cons.prems have "(k, s) \<in> set (written (getlines bytes)) \<or> (k, s) \<in> set (files_written files)"
      by (simp add: files_written_Cons)
    with Cons.IH written_not_sentinel [of k s "getlines bytes"] show ?thesis by blast
  qed
qed

text \<open>
  C5. No line of a bucket file is \<open>EOB\<close> or \<open>EOF\<close>, whatever the raw files hold and
  whether or not the bucketizer succeeds; and two raw files whose lines agree up to and
  including a line whose payload is \<open>EOB\<close> or \<open>EOF\<close> are bucketized alike, so that what
  follows a sentinel line in a raw file is ignored.
\<close>

theorem BucketizeDiff_sentinel_handling:
  "(BucketizeDiff mkdir_ok can_open [] raws n = Inr (ok, buckets) \<longrightarrow>
      ''EOB'' \<notin> set (bucket_lines buckets) \<and> ''EOF'' \<notin> set (bucket_lines buckets)) \<and>
   (is_sentinel sentinel \<and> getlines bytes = pre @ sentinel # post
      \<and> getlines bytes' = pre @ sentinel # post' \<longrightarrow>
      BucketizeDiff_files can_open b (Some bytes # files)
        = BucketizeDiff_files can_open b (Some bytes' # files))"
proof (intro conjI impI)
  assume run: "BucketizeDiff mkdir_ok can_open [] raws n = Inr (ok, buckets)"
  have sub: "set (bucket_records buckets) \<subseteq> set (files_written (map raws [0..<nat n]))"
  proof (cases mkdir_ok)
    case False
    with run show ?thesis by (simp add: BucketizeDiff_def bucket_records_Nil)
  next
    case True
    with run have "BucketizeDiff_files can_open [] (map raws [0..<nat n]) = Inr (ok, buckets)"
      by (simp add: BucketizeDiff_def)
    from BucketizeDiff_files_subset [OF bucket_inv_empty this] show ?thesis
      by (simp add: bucket_records_Nil)
  qed
  have none: "s \<noteq> ''EOB'' \<and> s \<noteq> ''EOF''" if "s \<in> set (bucket_lines buckets)" for s
  proof -
    from that obtain k where "(k, s) \<in> set (bucket_records buckets)"
      unfolding bucket_lines_def by auto
    with sub have "(k, s) \<in> set (files_written (map raws [0..<nat n]))" by blast
    then show ?thesis by (rule files_written_not_sentinel)
  qed
  from none [of "''EOB''"] show "''EOB'' \<notin> set (bucket_lines buckets)" by blast
  from none [of "''EOF''"] show "''EOF'' \<notin> set (bucket_lines buckets)" by blast
next
  assume h: "is_sentinel sentinel \<and> getlines bytes = pre @ sentinel # post
      \<and> getlines bytes' = pre @ sentinel # post'"
  then have "stops sentinel" by (simp add: is_sentinel_stops)
  then have "BucketizeDiff_lines can_open b (pre @ sentinel # post)
               = BucketizeDiff_lines can_open b (pre @ [sentinel])"
    and "BucketizeDiff_lines can_open b (pre @ sentinel # post')
               = BucketizeDiff_lines can_open b (pre @ [sentinel])"
    by (rule BucketizeDiff_lines_stop)+
  then have "BucketizeDiff_lines can_open b (pre @ sentinel # post)
               = BucketizeDiff_lines can_open b (pre @ sentinel # post')"
    by (rule trans_sym)
  with h show "BucketizeDiff_files can_open b (Some bytes # files)
        = BucketizeDiff_files can_open b (Some bytes' # files)"
    by simp
qed

theorem BucketizeDiff_sentinel_handling_witness:
  "''EOB'' \<notin> set (bucket_lines buckets_after_sentinel) \<and>
   ''EOF'' \<notin> set (bucket_lines buckets_after_sentinel) \<and>
   BucketizeDiff_files every_level []
       [Some (file_of_lines [''1 a FILE_C /x'', ''0 0 EOB'', ''2 b FILE_C /y''])]
     = BucketizeDiff_files every_level [] [Some (file_of_lines [''1 a FILE_C /x'', ''0 0 EOB''])]"
proof -
  have run: "BucketizeDiff True every_level [] raw_after_sentinel 1 = Inr (True, buckets_after_sentinel)"
    by code_simp
  have sent: "is_sentinel ''0 0 EOB''"
    by code_simp
  have l1: "getlines (file_of_lines [''1 a FILE_C /x'', ''0 0 EOB'', ''2 b FILE_C /y''])
              = [''1 a FILE_C /x''] @ ''0 0 EOB'' # [''2 b FILE_C /y'']"
    by code_simp
  have l2: "getlines (file_of_lines [''1 a FILE_C /x'', ''0 0 EOB''])
              = [''1 a FILE_C /x''] @ ''0 0 EOB'' # []"
    by code_simp
  from BucketizeDiff_sentinel_handling
         [of True every_level raw_after_sentinel 1 True buckets_after_sentinel "''0 0 EOB''"
             "file_of_lines [''1 a FILE_C /x'', ''0 0 EOB'', ''2 b FILE_C /y'']"
             "[''1 a FILE_C /x'']" "[''2 b FILE_C /y'']"
             "file_of_lines [''1 a FILE_C /x'', ''0 0 EOB'']" "[]" "[]" "[]"]
       run sent l1 l2
  show ?thesis by blast
qed

subsection \<open>Buckets and levels\<close>

lemma sorted_wrt_less_distinct: "sorted_wrt (<) (xs :: int list) \<Longrightarrow> distinct xs"
  by (induction xs) auto

text \<open>
  C9, as the code has it. When the bucketizer succeeds, the keys of the bucket map are
  distinct, they are exactly the normalized levels of the lines read (those of every raw
  file up to and including the first line it stops at, so sentinel lines too), and each
  key has an open stream on its bucket file. A bucket file therefore comes into being
  with the first line read for its level, whether that line is a payload or a sentinel.
\<close>

theorem BucketizeDiff_one_bucket_per_level:
  assumes "BucketizeDiff mkdir_ok can_open [] raws n = Inr (True, buckets)"
  shows "distinct (map fst buckets) \<and>
         set (map fst buckets) = level_of ` set (files_read (map raws [0..<nat n])) \<and>
         list_all stream_ok buckets"
proof -
  from assms have run: "BucketizeDiff_files can_open [] (map raws [0..<nat n]) = Inr (True, buckets)"
    by (simp add: BucketizeDiff_def split: if_splits)
  from BucketizeDiff_files_inv [OF bucket_inv_empty run]
  have inv: "bucket_inv buckets"
    and keys: "fst ` set buckets = level_of ` set (files_read (map raws [0..<nat n]))"
    by simp_all
  from inv have "distinct (map fst buckets)"
    by (simp add: bucket_inv_def sorted_wrt_less_distinct)
  with inv keys show ?thesis
    by (simp add: bucket_inv_def)
qed

theorem BucketizeDiff_one_bucket_per_level_witness:
  "distinct (map fst buckets_two_levels) \<and>
   set (map fst buckets_two_levels) = level_of ` set (files_read (map raw_two_levels [0..<nat 1])) \<and>
   list_all stream_ok buckets_two_levels"
proof -
  have run: "BucketizeDiff True every_level [] raw_two_levels 1 = Inr (True, buckets_two_levels)"
    by code_simp
  from BucketizeDiff_one_bucket_per_level [OF run] show ?thesis .
qed

text \<open>
  C9 as stated fails: a raw file that holds only the sentinel line \<open>0 0 EOB\<close> leaves a
  bucket file for level 513 in the map although no payload was written for any level.
\<close>

theorem BucketizeDiff_bucket_for_sentinel_counterexample:
  "BucketizeDiff True every_level [] raw_sentinel_only 1
     = Inr (True, [(513, Some \<lparr>is_open = True, content = []\<rparr>)]) \<and>
   files_written (map raw_sentinel_only [0..<nat 1]) = []"
  by code_simp

subsection \<open>Lossless bucketing\<close>

lemma written_payloads:
  "\<forall>l \<in> set (lines_read ls). well_formed l \<Longrightarrow>
   map snd (written ls) = map payload (before_sentinel ls)"
proof (induction ls)
  case Nil
  then show ?case by (simp add: written_Nil before_sentinel_def)
next
  case (Cons l ls)
  from Cons.prems have "well_formed l" by (simp split: if_splits)
  then have three: "3 \<le> length (tokens l)" by (simp add: well_formed_def)
  show ?case
  proof (cases "stops l")
    case True
    with three show ?thesis
      by (simp add: written_Cons before_sentinel_def stops_is_sentinel)
  next
    case False
    with Cons.prems have "\<forall>l \<in> set (lines_read ls). well_formed l" by simp
    from Cons.IH [OF this] False three show ?thesis
      by (simp add: written_Cons before_sentinel_def stops_is_sentinel line_str_payload)
  qed
qed

lemma files_written_payloads:
  "\<forall>l \<in> set (files_read files). well_formed l \<Longrightarrow>
   map snd (files_written files) = raw_payloads files"
proof (induction files)
  case Nil
  then show ?case by (simp add: files_written_def raw_payloads_def)
next
  case (Cons fl files)
  show ?case
  proof (cases fl)
    case None
    with Cons show ?thesis
      by (simp add: files_written_def raw_payloads_def files_read_def)
  next
    case (Some bytes)
    with Cons.prems have here: "\<forall>l \<in> set (lines_read (getlines bytes)). well_formed l"
      and later: "\<forall>l \<in> set (files_read files). well_formed l"
      by (simp_all add: files_read_Cons)
    have "raw_payloads (fl # files) = map payload (before_sentinel (getlines bytes)) @ raw_payloads files"
      using Some by (simp add: raw_payloads_def)
    with Cons.IH [OF later] written_payloads [OF here] Some show ?thesis
      by (simp add: files_written_Cons)
  qed
qed

text \<open>
  C6, as the code has it. When the bucket directory and every bucket file can be created,
  every raw file can be opened, and every line read (those of each raw file up to and
  including the first sentinel line) has at least three tokens and a level that \<open>stoi\<close>
  accepts, the bucketizer succeeds and the lines of all bucket files are, as a multiset,
  the payloads of the raw lines that precede the first sentinel line of their file.
\<close>

theorem BucketizeDiff_lossless:
  assumes "mkdir_ok"
    and "None \<notin> set (map raws [0..<nat n])"
    and "\<forall>l \<in> set (files_read (map raws [0..<nat n])). well_formed l"
    and "\<forall>level. can_open level"
  shows "\<exists>buckets. BucketizeDiff mkdir_ok can_open [] raws n = Inr (True, buckets) \<and>
           mset (bucket_lines buckets) = mset (raw_payloads (map raws [0..<nat n]))"
proof -
  let ?files = "map raws [0..<nat n]"
  have "\<forall>l \<in> set (files_read ?files). \<exists>level. line_level l = Inr level \<and> can_open level"
  proof
    fix l assume "l \<in> set (files_read ?files)"
    with assms(3) have "well_formed l" by blast
    with assms(4) show "\<exists>level. line_level l = Inr level \<and> can_open level"
      by (cases "line_level l") (simp_all add: well_formed_def)
  qed
  from BucketizeDiff_files_total [OF bucket_inv_empty assms(2) this]
  obtain buckets where run: "BucketizeDiff_files can_open [] ?files = Inr (True, buckets)"
    by blast
  from BucketizeDiff_files_inv [OF bucket_inv_empty run]
  have "mset (bucket_records buckets) = mset (files_written ?files)"
    by (simp add: bucket_records_Nil)
  then have "mset (map snd (bucket_records buckets)) = mset (map snd (files_written ?files))"
    by (metis mset_map)
  with files_written_payloads [OF assms(3)]
  have "mset (bucket_lines buckets) = mset (raw_payloads ?files)"
    by (simp add: bucket_lines_def)
  with run assms(1) show ?thesis
    by (simp add: BucketizeDiff_def)
qed

theorem BucketizeDiff_lossless_witness:
  "\<exists>buckets. BucketizeDiff True every_level [] raw_two_levels 1 = Inr (True, buckets) \<and>
     mset (bucket_lines buckets) = mset (raw_payloads (map raw_two_levels [0..<nat 1]))"
proof -
  have files: "None \<notin> set (map raw_two_levels [0..<nat 1])"
    by (simp add: raw_two_levels_def)
  have wf: "\<forall>l \<in> set (files_read (map raw_two_levels [0..<nat 1])). well_formed l"
    by code_simp
  have op: "\<forall>level. every_level level"
    by (simp add: every_level_def)
  from BucketizeDiff_lossless [of True raw_two_levels 1 every_level, OF _ files wf op]
  show ?thesis by simp
qed

text \<open>
  C6 as stated fails: of the raw file with the lines \<open>1 a FILE_C /x\<close>, \<open>0 0 EOB\<close> and
  \<open>2 b FILE_C /y\<close> only the first reaches a bucket file, whereas the raw file has three
  lines, two of which are no sentinels.
\<close>

theorem BucketizeDiff_after_sentinel_counterexample:
  "BucketizeDiff True every_level [] raw_after_sentinel 1 = Inr (True, buckets_after_sentinel) \<and>
   mset (bucket_lines buckets_after_sentinel) \<noteq> mset (line_payloads (map raw_after_sentinel [0..<nat 1])) \<and>
   mset (bucket_lines buckets_after_sentinel) \<noteq> mset (all_payloads (map raw_after_sentinel [0..<nat 1]))"
proof -
  have run: "BucketizeDiff True every_level [] raw_after_sentinel 1 = Inr (True, buckets_after_sentinel)"
    by code_simp
  have a: "length (bucket_lines buckets_after_sentinel) = 1"
    by code_simp
  have b: "length (line_payloads (map raw_after_sentinel [0..<nat 1])) = 3"
    by code_simp
  have c: "length (all_payloads (map raw_after_sentinel [0..<nat 1])) = 2"
    by code_simp
  have "mset (bucket_lines buckets_after_sentinel)
      \<noteq> mset (line_payloads (map raw_after_sentinel [0..<nat 1]))"
  proof
    assume "mset (bucket_lines buckets_after_sentinel)
      = mset (line_payloads (map raw_after_sentinel [0..<nat 1]))"
    then have "length (bucket_lines buckets_after_sentinel)
      = length (line_payloads (map raw_after_sentinel [0..<nat 1]))"
      by (rule mset_eq_length)
    with a b show False by simp
  qed
  moreover have "mset (bucket_lines buckets_after_sentinel)
      \<noteq> mset (all_payloads (map raw_after_sentinel [0..<nat 1]))"
  proof
    assume "mset (bucket_lines buckets_after_sentinel)
      = mset (all_payloads (map raw_after_sentinel [0..<nat 1]))"
    then have "length (bucket_lines buckets_after_sentinel)
      = length (all_payloads (map raw_after_sentinel [0..<nat 1]))"
      by (rule mset_eq_length)
    with a c show False by simp
  qed
  ultimately show ?thesis using run by simp
qed

text \<open>
  A raw line of two tokens: the third extraction fails and leaves the object id in \<open>s\<close>,
  which is written to the bucket file as if it were the payload.
\<close>

lemma BucketizeDiff_line_two_tokens:
  "payload ''5 obj9'' = [] \<and> line_str ''5 obj9'' = ''obj9'' \<and>
   BucketizeDiff_line every_level [] ''5 obj9''
     = Inr (NextLine [(518, Some \<lparr>is_open = True, content = file_of_lines [''obj9'']\<rparr>)])"
  by code_simp

section \<open>Properties of the Serializer\<close>

lemma SerializeBuckets_loop_failed:
  "list_all stream_ok b \<Longrightarrow>
   SerializeBuckets_loop (out, True) b = Inr ((out, True), map release b)"
proof (induction b)
  case Nil
  then show ?case by simp
next
  case (Cons e b)
  obtain k p where e: "e = (k, p)" by (cases e)
  from Cons.prems e obtain f where p: "p = Some f"
    by (cases p) (simp_all add: stream_ok_def)
  from Cons.prems Cons.IH have "SerializeBuckets_loop (out, True) b = Inr ((out, True), map release b)"
    by simp
  with e p show ?case by (simp add: release_def)
qed

lemma SerializeBuckets_loop_inv:
  assumes "list_all stream_ok b"
  shows "\<exists>m failbit'.
           SerializeBuckets_loop (out, failbit) b
             = Inr ((out @ concat (map bucket_bytes (take m b)), failbit'), map release b) \<and>
           m \<le> length b \<and> (\<not> failbit \<and> no_empty_bucket b \<longrightarrow> m = length b)"
  using assms
proof (induction b arbitrary: out failbit)
  case Nil
  then show ?case by simp
next
  case (Cons e b)
  obtain k p where e: "e = (k, p)" by (cases e)
  from Cons.prems e obtain f where p: "p = Some f" and opn: "is_open f"
    by (cases p) (simp_all add: stream_ok_def)
  from Cons.prems have rest: "list_all stream_ok b" by simp
  show ?case
  proof (cases "failbit \<or> content f = []")
    case True
    have "SerializeBuckets_loop (out, True) b = Inr ((out, True), map release b)"
      using rest by (rule SerializeBuckets_loop_failed)
    with True e p opn have "SerializeBuckets_loop (out, failbit) (e # b)
             = Inr ((out @ concat (map bucket_bytes (take 0 (e # b))), True), map release (e # b))"
      by (auto simp: release_def)
    moreover have "\<not> failbit \<and> no_empty_bucket (e # b) \<longrightarrow> 0 = length (e # b)"
      using True e p by (auto simp: no_empty_bucket_def)
    ultimately show ?thesis by blast
  next
    case False
    from Cons.IH [OF rest, of "out @ content f" False]
    obtain m fb where run: "SerializeBuckets_loop (out @ content f, False) b
             = Inr ((out @ content f @ concat (map bucket_bytes (take m b)), fb), map release b)"
      and m: "m \<le> length b" "no_empty_bucket b \<longrightarrow> m = length b"
      by auto
    have "SerializeBuckets_loop (out, failbit) (e # b)
             = Inr ((out @ concat (map bucket_bytes (take (Suc m) (e # b))), fb), map release (e # b))"
      using False e p opn run by (simp add: bucket_bytes_def release_def)
    moreover have "Suc m \<le> length (e # b)" using m by simp
    moreover have "\<not> failbit \<and> no_empty_bucket (e # b) \<longrightarrow> Suc m = length (e # b)"
      using m by (simp add: no_empty_bucket_def)
    ultimately show ?thesis by blast
  qed
qed

lemma all_released_release: "all_released (map release b)"
  by (induction b) (simp_all add: all_released_def release_def)

lemma bucket_bytes_lines:
  "list_all stream_ok b \<Longrightarrow>
   terminated (concat (map bucket_bytes b)) \<and>
   getlines (concat (map bucket_bytes b)) = map snd (bucket_records b)"
proof (induction b)
  case Nil
  then show ?case by (simp add: terminated_def getlines_def bucket_records_Nil)
next
  case (Cons e b)
  obtain k p where e: "e = (k, p)" by (cases e)
  from Cons.prems e obtain f where p: "p = Some f" and t: "terminated (content f)"
    by (cases p) (simp_all add: stream_ok_def)
  from Cons have IH: "terminated (concat (map bucket_bytes b))"
    "getlines (concat (map bucket_bytes b)) = map snd (bucket_records b)"
    by simp_all
  have "terminated (content f @ concat (map bucket_bytes b))"
    using t IH(1) by (auto simp: terminated_def last_append)
  moreover have "getlines (content f @ concat (map bucket_bytes b))
      = getlines (content f) @ map snd (bucket_records b)"
    using getlines_append [OF t] IH(2) by simp
  moreover have "bucket_bytes e = content f"
    using e p by (simp add: bucket_bytes_def)
  moreover have "bucket_records (e # b) = map (Pair k) (getlines (content f)) @ bucket_records b"
    using e p by (simp add: bucket_records_Cons)
  ultimately show ?case
    by (simp add: comp_def)
qed

lemma bucket_records_append:
  "bucket_records (a @ b) = bucket_records a @ bucket_records b"
  by (simp add: bucket_records_def)

lemma bucket_records_keys: "fst ` set (bucket_records b) \<subseteq> fst ` set b"
proof (induction b)
  case Nil
  then show ?case by (simp add: bucket_records_Nil)
next
  case (Cons e b)
  obtain k p where e: "e = (k, p)" by (cases e)
  have "fst ` set (bucket_records (e # b)) \<subseteq> insert k (fst ` set (bucket_records b))"
    using e by (cases p) (auto simp: bucket_records_Cons)
  moreover have "fst ` set (e # b) = insert k (fst ` set b)"
    using e by simp
  ultimately show ?case
    using Cons.IH by blast
qed

lemma bucket_records_sorted:
  "sorted_wrt (<) (map fst b) \<Longrightarrow> sorted (map fst (bucket_records b))"
proof (induction b)
  case Nil
  then show ?case by (simp add: bucket_records_Nil)
next
  case (Cons e b)
  obtain k p where e: "e = (k, p)" by (cases e)
  from Cons.prems e have above: "\<forall>x \<in> fst ` set b. k < x" and tail: "sorted_wrt (<) (map fst b)"
    by auto
  from above bucket_records_keys [of b] have "\<forall>x \<in> fst ` set (bucket_records b). k \<le> x"
    by fastforce
  with Cons.IH [OF tail] e show ?case
    by (cases p) (auto simp: bucket_records_Cons sorted_append comp_def sorted_map)
qed

lemma sorted_positions:
  assumes "sorted (map fst xs)" and "i < length xs" and "j < length xs"
    and "fst (xs ! i) < fst (xs ! j)"
  shows "i < j"
proof (rule ccontr)
  assume "\<not> i < j"
  then have "j \<le> i" by simp
  with assms(1,2) have "map fst xs ! j \<le> map fst xs ! i"
    by (simp add: sorted_iff_nth_mono)
  with assms(2-4) show False by simp
qed

text \<open>
  On the bucket map that the bucketizer leaves, the serializer fails exactly when
  \<open>serialized_diff\<close> cannot be created, and when it succeeds every stream is closed,
  deleted and its pointer null.
\<close>

lemma SerializeBuckets_returns:
  assumes "bucket_inv b"
  shows "\<exists>out. SerializeBuckets True b = Inr (True, Some out, map release b) \<and>
               all_released (map release b)"
    and "SerializeBuckets False b = Inr (False, None, b)"
proof -
  from assms have "list_all stream_ok b" by (simp add: bucket_inv_def)
  from SerializeBuckets_loop_inv [OF this, of "[]" False]
  obtain m fb where "SerializeBuckets_loop ([], False) b
      = Inr ((concat (map bucket_bytes (take m b)), fb), map release b)"
    by auto
  then show "\<exists>out. SerializeBuckets True b = Inr (True, Some out, map release b) \<and>
               all_released (map release b)"
    by (simp add: SerializeBuckets_def all_released_release)
  show "SerializeBuckets False b = Inr (False, None, b)"
    by (simp add: SerializeBuckets_def)
qed

text \<open>
  What the serializer copies. Let the bucketizer succeed on any raw files. Then the
  serializer, when it can create its output file, succeeds, and the lines of
  \<open>serialized_diff\<close> are the lines of an initial part \<open>placed\<close> of the records of the bucket
  files taken in map order, each record being a line with the key of its bucket; among
  these, a record at position \<open>i\<close> whose key is less than that of the record at position
  \<open>j\<close> comes first. The records \<open>dropped\<close>, those of the buckets that follow a bucket file
  without bytes, are in no line of the output; there are none when no bucket file is
  empty.
\<close>

lemma SerializeBuckets_copied_in_key_order:
  assumes "BucketizeDiff mkdir_ok can_open [] raws n = Inr (True, buckets)"
  shows "\<exists>out released placed dropped.
           SerializeBuckets True buckets = Inr (True, Some out, released) \<and>
           getlines out = map snd placed \<and>
           placed @ dropped = bucket_records buckets \<and>
           mset (bucket_records buckets) = mset (files_written (map raws [0..<nat n])) \<and>
           (no_empty_bucket buckets \<longrightarrow> dropped = []) \<and>
           (\<forall>i j. i < length placed \<and> j < length placed \<and> fst (placed ! i) < fst (placed ! j)
                    \<longrightarrow> i < j)"
proof -
  from assms have run: "BucketizeDiff_files can_open [] (map raws [0..<nat n]) = Inr (True, buckets)"
    by (simp add: BucketizeDiff_def split: if_splits)
  from BucketizeDiff_files_inv [OF bucket_inv_empty run]
  have inv: "bucket_inv buckets"
    and recs: "mset (bucket_records buckets) = mset (files_written (map raws [0..<nat n]))"
    by (simp_all add: bucket_records_Nil)
  from inv have ok: "list_all stream_ok buckets" and srt: "sorted_wrt (<) (map fst buckets)"
    by (simp_all add: bucket_inv_def)
  from SerializeBuckets_loop_inv [OF ok, of "[]" False]
  obtain m fb where loop: "SerializeBuckets_loop ([], False) buckets
      = Inr ((concat (map bucket_bytes (take m buckets)), fb), map release buckets)"
    and full: "no_empty_bucket buckets \<longrightarrow> m = length buckets"
    by auto
  let ?out = "concat (map bucket_bytes (take m buckets))"
  let ?placed = "bucket_records (take m buckets)"
  let ?dropped = "bucket_records (drop m buckets)"
  from loop have 1: "SerializeBuckets True buckets = Inr (True, Some ?out, map release buckets)"
    by (simp add: SerializeBuckets_def)
  from ok have "list_all stream_ok (take m buckets)"
    by (simp add: list_all_iff) (meson in_set_takeD)
  then have 2: "getlines ?out = map snd ?placed"
    by (simp add: bucket_bytes_lines)
  have 3: "?placed @ ?dropped = bucket_records buckets"
    by (simp add: bucket_records_append [symmetric])
  from full have 4: "no_empty_bucket buckets \<longrightarrow> ?dropped = []"
    by (simp add: bucket_records_Nil)
  from srt have "sorted (map fst (bucket_records buckets))"
    by (rule bucket_records_sorted)
  with 3 have "sorted (map fst ?placed)"
    by (metis map_append sorted_append)
  then have 5: "\<forall>i j. i < length ?placed \<and> j < length ?placed
      \<and> fst (?placed ! i) < fst (?placed ! j) \<longrightarrow> i < j"
    using sorted_positions by blast
  from 1 2 3 4 5 recs show ?thesis by blast
qed

text \<open>
  A bucket file without bytes sets the failbit of the output, and the buckets after it are
  not copied: for the raw file with the lines \<open>1 a FILE_C /x\<close> and \<open>0 0 EOB\<close> (and whatever
  follows), the sentinel line leaves the empty bucket file 513, and the record of bucket
  514 does not reach \<open>serialized_diff\<close>.
\<close>

lemma SerializeBuckets_after_empty_bucket:
  "BucketizeDiff True every_level [] raw_after_sentinel 1 = Inr (True, buckets_after_sentinel) \<and>
   bucket_lines buckets_after_sentinel = [''FILE_C'' @ [CHR 0x09] @ ''/x''] \<and>
   SerializeBuckets True buckets_after_sentinel = Inr (True, Some [], [(513, None), (514, None)])"
  by code_simp

text \<open>
  C2 at a failing input. For the raw file with the lines \<open>1 a FILE_C /x\<close>, \<open>3 b FILE_C /y\<close>
  and \<open>2 0 EOB\<close> the bucketizer leaves the records of the levels 1 and 3 in the bucket
  files 514 and 516 and, for the sentinel line, the bucket file 515 without bytes. The
  serializer returns true and releases the three streams, and \<open>serialized_diff\<close> holds the
  record of level 1 alone: the insertion of the empty bucket file 515 sets the failbit of
  the output, the insertion of bucket file 516 then writes nothing, and the record of
  level 3 is in no line of the output, after the record of level 1 or anywhere.
\<close>

theorem SerializeBuckets_drops_higher_level:
  "BucketizeDiff True every_level [] raw_level_gap 1 = Inr (True, buckets_level_gap) \<and>
   bucket_records buckets_level_gap
     = [(514, ''FILE_C'' @ [CHR 0x09] @ ''/x''), (516, ''FILE_C'' @ [CHR 0x09] @ ''/y'')] \<and>
   SerializeBuckets True buckets_level_gap
     = Inr (True, Some (file_of_lines [''FILE_C'' @ [CHR 0x09] @ ''/x'']),
            [(514, None), (515, None), (516, None)]) \<and>
   getlines (file_of_lines [''FILE_C'' @ [CHR 0x09] @ ''/x'']) = [''FILE_C'' @ [CHR 0x09] @ ''/x'']"
  by code_simp

text \<open>
  C3 at a failing input. On the bucket map that the bucketizer leaves for a raw file with
  records of two levels, the serializer, when it cannot create \<open>serialized_diff\<close>, returns
  false and leaves the map as it was: both streams are still open and no pointer is null.
\<close>

theorem SerializeBuckets_failure_keeps_streams_open:
  "BucketizeDiff True every_level [] raw_two_levels 1 = Inr (True, buckets_two_levels) \<and>
   SerializeBuckets False buckets_two_levels = Inr (False, None, buckets_two_levels) \<and>
   list_all stream_ok buckets_two_levels \<and>
   \<not> all_released buckets_two_levels"
  by code_simp

section \<open>Properties of the Event Mapper\<close>

subsection \<open>Token indexing\<close>

lemma GenerateJSON_line_outcome:
  "GenerateJSON_line lstat snapDir diffLine = Inl OutOfBounds \<or>
   (\<exists>r. GenerateJSON_line lstat snapDir diffLine = Inr r)"
  by (simp add: GenerateJSON_line_def vector_at_def Let_def)

text \<open>
  C10. The accesses \<open>diffLineList[0]\<close>, \<open>diffLineList[1]\<close> and \<open>diffLineList[2]\<close> made for
  a line stay within the token vector exactly when the line has at least two tokens,
  and at least three when it is a rename of a file or directory or the creation of a
  symlink. The empty line has no token, so its first access is already out of bounds.
\<close>

theorem GenerateJSON_line_in_bounds:
  "(GenerateJSON_line lstat snapDir diffLine \<noteq> Inl OutOfBounds) = tokens_suffice diffLine \<and>
   tokens [] = [] \<and>
   GenerateJSON_line lstat snapDir [] = Inl OutOfBounds"
proof (intro conjI)
  show "(GenerateJSON_line lstat snapDir diffLine \<noteq> Inl OutOfBounds) = tokens_suffice diffLine"
    by (auto simp: GenerateJSON_line_def vector_at_def Let_def tokens_suffice_def needs_third_def)
  show "tokens [] = []"
    by (simp add: tokens_def)
  show "GenerateJSON_line lstat snapDir [] = Inl OutOfBounds"
    by (simp add: GenerateJSON_line_def vector_at_def tokens_def)
qed

theorem GenerateJSON_line_in_bounds_witness:
  "needs_third ''DIR_RENAME'' \<and> tokens_suffice ''DIR_RENAME /a /b'' \<and>
   GenerateJSON_line no_stat ''/snap'' ''DIR_RENAME /a /b'' \<noteq> Inl OutOfBounds \<and>
   \<not> tokens_suffice ''DIR_RENAME /a'' \<and>
   GenerateJSON_line no_stat ''/snap'' ''DIR_RENAME /a'' = Inl OutOfBounds"
proof -
  have 1: "needs_third ''DIR_RENAME''" by code_simp
  have 2: "tokens_suffice ''DIR_RENAME /a /b''" by code_simp
  have 3: "\<not> tokens_suffice ''DIR_RENAME /a''" by code_simp
  from GenerateJSON_line_in_bounds [of no_stat "''/snap''" "''DIR_RENAME /a /b''"]
       GenerateJSON_line_in_bounds [of no_stat "''/snap''" "''DIR_RENAME /a''"] 1 2 3
  show ?thesis by blast
qed

subsection \<open>Flags\<close>

lemma map_of_Add:
  "map_of (Add key val m) k = (if k = key \<and> map_of m k = None then Some val else map_of m k)"
proof (cases "key \<in> fst ` set m")
  case True
  then show ?thesis by (auto simp: Add_def map_of_eq_None_iff)
next
  case False
  then have "map_of m key = None" by (simp add: map_of_eq_None_iff)
  with False show ?thesis
    by (simp add: Add_def map_add_def split: option.splits)
qed

lemma map_of_MakeStatsJsonMap:
  "k \<notin> {''size'', ''atime'', ''ctime'', ''mtime'', ''path''} \<Longrightarrow>
   map_of (snd (MakeStatsJsonMap lstat [] snapDir path)) k = None"
  by (simp add: MakeStatsJsonMap_def Let_def map_of_Add split: option.splits)

text \<open>
  For a file or directory that is neither deleted nor renamed, each of the four flags is
  emitted as \<open>true\<close>, whatever the characters of \<open>optype\<close>.
\<close>

lemma GenerateJSON_line_flags_true:
  assumes "tokens diffLine = op # path # rest"
    and "entrytype_of op = ''FILE'' \<or> entrytype_of op = ''DIR''"
    and "optype_of op \<noteq> ''DELETE''" and "optype_of op \<noteq> ''RENAME''"
    and "key \<in> {''created'', ''modified'', ''stat'', ''xattr''}"
  shows "emitted_field key (GenerateJSON_line lstat snapDir diffLine) = Some (JsonBool True)"
proof -
  have none: "map_of (snd (MakeStatsJsonMap lstat [] snapDir path)) k = None"
    if "k \<in> {''type'', ''created'', ''modified'', ''stat'', ''xattr''}" for k
    using that by (intro map_of_MakeStatsJsonMap) auto
  from assms(5) none show ?thesis
    using assms(1-4)
    by (auto simp: GenerateJSON_line_def vector_at_def Let_def emitted_field_def map_of_Add
          bool_of_literal_def)
qed

text \<open>
  C1 at a failing input. The bucket line of the raw record
  \<open>-2 obj9 SYM_CM /a/link /a/target\<close> has the operation type \<open>CM\<close>, without \<open>S\<close>; the
  event made from it is a symlink event with \<open>created\<close> true and \<open>stat\<close> true.
\<close>

theorem GenerateJSON_line_symlink_stat_true:
  "line_str ''-2 obj9 SYM_CM /a/link /a/target'' = sym_cm_line \<and>
   optype_of ''SYM_CM'' = ''CM'' \<and> \<not> has_flag CHR ''S'' ''CM'' \<and>
   emitted_field ''type'' (GenerateJSON_line lstat snapDir sym_cm_line) = Some (JsonString ''symlink'') \<and>
   emitted_field ''created'' (GenerateJSON_line lstat snapDir sym_cm_line) = Some (JsonBool True) \<and>
   emitted_field ''stat'' (GenerateJSON_line lstat snapDir sym_cm_line) = Some (JsonBool True)"
proof -
  have 1: "line_str ''-2 obj9 SYM_CM /a/link /a/target'' = sym_cm_line" by code_simp
  have 2: "optype_of ''SYM_CM'' = ''CM''" by code_simp
  have 3: "\<not> has_flag CHR ''S'' ''CM''" by code_simp
  have 4: "tokens sym_cm_line = [''SYM_CM'', ''/a/link'', ''/a/target'']" by code_simp
  have 5: "entrytype_of ''SYM_CM'' = ''SYM''" by code_simp
  have 6: "has_flag CHR ''C'' ''CM''" by code_simp
  have none: "map_of (snd (MakeStatsJsonMap lstat [] snapDir ''/a/link'')) k = None"
    if "k \<in> {''type'', ''created'', ''target'', ''stat''}" for k
    using that by (intro map_of_MakeStatsJsonMap) auto
  have run: "GenerateJSON_line lstat snapDir sym_cm_line =
      Inr (Some (JsonMap
        (Add ''stat'' (JsonBool True)
          (Add ''target'' (JsonString ''/a/target'')
            (Add ''created'' (JsonBool True)
              (Add ''type'' (JsonString ''symlink'')
                (snd (MakeStatsJsonMap lstat [] snapDir ''/a/link'')))))))) "
    by (simp add: GenerateJSON_line_def 2 3 4 5 6 vector_at_def Let_def bool_of_literal_def)
  have "emitted_field ''type'' (GenerateJSON_line lstat snapDir sym_cm_line) = Some (JsonString ''symlink'')"
    using none by (simp add: run emitted_field_def map_of_Add)
  moreover
  have "emitted_field ''created'' (GenerateJSON_line lstat snapDir sym_cm_line) = Some (JsonBool True)"
    using none by (simp add: run emitted_field_def map_of_Add)
  moreover
  have "emitted_field ''stat'' (GenerateJSON_line lstat snapDir sym_cm_line) = Some (JsonBool True)"
    using none by (simp add: run emitted_field_def map_of_Add)
  ultimately show ?thesis using 1 2 3 by blast
qed

subsection \<open>Batches\<close>

declare batches.simps [simp del]

text \<open>
  A batch that ends without \<open>done\<close> has read at least one line, so the lines
  left are fewer.
\<close>

lemma GenerateJSON_batch_rest:
  "GenerateJSON_batch lstat snapDir diffItems lines = Inr (diffItems', rest, dn) \<Longrightarrow>
   length rest \<le> length lines \<and> (\<not> dn \<and> length diffItems < 1000 \<longrightarrow> length rest < length lines)"
proof (induction lines arbitrary: diffItems)
  case Nil
  then show ?case by (auto split: if_splits)
next
  case (Cons diffLine lines)
  show ?case
  proof (cases "length diffItems < 1000")
    case False
    with Cons.prems show ?thesis by auto
  next
    case True
    show ?thesis
    proof (cases "GenerateJSON_line lstat snapDir diffLine")
      case (Inl e)
      with True Cons.prems show ?thesis by simp
    next
      case (Inr r)
      show ?thesis
      proof (cases r)
        case None
        with True Inr Cons.prems
        have "GenerateJSON_batch lstat snapDir diffItems lines = Inr (diffItems', rest, dn)"
          by simp
        from Cons.IH [OF this] show ?thesis by auto
      next
        case (Some diffItem)
        with True Inr Cons.prems
        have "GenerateJSON_batch lstat snapDir (diffItems @ [diffItem]) lines
                = Inr (diffItems', rest, dn)"
          by simp
        from Cons.IH [OF this] show ?thesis by auto
      qed
    qed
  qed
qed

declare GenerateJSON_loop.simps [simp del]

lemma GenerateJSON_line_bounds_iff:
  "(GenerateJSON_line lstat snapDir diffLine \<noteq> Inl OutOfBounds) = tokens_suffice diffLine"
  by (auto simp: GenerateJSON_line_def vector_at_def Let_def tokens_suffice_def needs_third_def)

lemma GenerateJSON_line_suffice:
  assumes "tokens_suffice l"
  obtains r where "GenerateJSON_line lstat snapDir l = Inr r"
  using assms GenerateJSON_line_outcome [of lstat snapDir l]
    GenerateJSON_line_bounds_iff [of lstat snapDir l] by blast

lemma GenerateJSON_line_classifiable:
  assumes "tokens_suffice l"
  shows "(\<exists>diffItem. GenerateJSON_line lstat snapDir l = Inr (Some diffItem)) = classifiable l"
  using assms
  by (auto simp: GenerateJSON_line_def vector_at_def Let_def tokens_suffice_def needs_third_def
        classifiable_def split: list.splits)

lemma events_Cons_Some:
  "GenerateJSON_line lstat snapDir l = Inr (Some diffItem) \<Longrightarrow>
   events lstat snapDir (l # ls) = diffItem # events lstat snapDir ls"
  by simp

lemma events_Cons_None:
  "GenerateJSON_line lstat snapDir l = Inr None \<Longrightarrow>
   events lstat snapDir (l # ls) = events lstat snapDir ls"
  by simp

lemma GenerateJSON_batch_events:
  assumes "\<forall>l \<in> set lines. tokens_suffice l" and "length diffItems \<le> 1000"
  shows "\<exists>rest dn.
           GenerateJSON_batch lstat snapDir diffItems lines
             = Inr (diffItems @ take (1000 - length diffItems) (events lstat snapDir lines), rest, dn) \<and>
           events lstat snapDir rest = drop (1000 - length diffItems) (events lstat snapDir lines) \<and>
           (\<forall>l \<in> set rest. tokens_suffice l) \<and>
           (dn \<longrightarrow> length diffItems + length (events lstat snapDir lines) < 1000) \<and>
           (\<not> dn \<longrightarrow> 1000 \<le> length diffItems + length (events lstat snapDir lines))"
  using assms
proof (induction lines arbitrary: diffItems)
  case Nil
  then show ?case by auto
next
  case (Cons l lines)
  from Cons.prems(1) have suff: "tokens_suffice l" and rest: "\<forall>l \<in> set lines. tokens_suffice l"
    by simp_all
  show ?case
  proof (cases "length diffItems < 1000")
    case False
    with Cons.prems(2) have full: "length diffItems = 1000" by simp
    have "GenerateJSON_batch lstat snapDir diffItems (l # lines) = Inr (diffItems, l # lines, False)"
      using full by simp
    with full Cons.prems(1) show ?thesis by auto
  next
    case True
    from suff obtain r where r: "GenerateJSON_line lstat snapDir l = Inr r"
      by (rule GenerateJSON_line_suffice)
    show ?thesis
    proof (cases r)
      case None
      with r have ev: "events lstat snapDir (l # lines) = events lstat snapDir lines"
        by (simp add: events_Cons_None)
      have "GenerateJSON_batch lstat snapDir diffItems (l # lines)
              = GenerateJSON_batch lstat snapDir diffItems lines"
        using True r None by simp
      with Cons.IH [OF rest Cons.prems(2)] ev show ?thesis
        by simp
    next
      case (Some diffItem)
      with r have ev: "events lstat snapDir (l # lines) = diffItem # events lstat snapDir lines"
        by (simp add: events_Cons_Some)
      from True have le: "length (diffItems @ [diffItem]) \<le> 1000" by simp
      from True have k: "1000 - length diffItems = Suc (1000 - length (diffItems @ [diffItem]))"
        by simp
      have "GenerateJSON_batch lstat snapDir diffItems (l # lines)
              = GenerateJSON_batch lstat snapDir (diffItems @ [diffItem]) lines"
        using True r Some by simp
      with Cons.IH [OF rest le] show ?thesis
        unfolding ev k by simp
    qed
  qed
qed

lemma batches_Nil: "batches n [] = []"
  by (simp add: batches.simps)

lemma batches_short: "xs \<noteq> [] \<Longrightarrow> length xs \<le> 1000 \<Longrightarrow> batches n xs = [(n, xs)]"
  by (subst batches.simps) (simp add: batches_Nil)

lemma batches_long:
  "1000 \<le> length xs \<Longrightarrow> batches n xs = (n, take 1000 xs) # batches (Suc n) (drop 1000 xs)"
  by (subst batches.simps) auto

lemma GenerateJSON_loop_batches:
  assumes "\<forall>l \<in> set lines. tokens_suffice l" and "\<forall>k. can_open_json k"
  shows "GenerateJSON_loop lstat snapDir can_open_json jsonFileCount docs lines
           = Inr (True, docs @ batches jsonFileCount (events lstat snapDir lines))"
  using assms(1)
proof (induction "length lines" arbitrary: lines jsonFileCount docs rule: less_induct)
  case less
  let ?evs = "events lstat snapDir lines"
  from GenerateJSON_batch_events [OF less.prems, of "[]" lstat snapDir]
  obtain rest dn where
    batch: "GenerateJSON_batch lstat snapDir [] lines = Inr (take 1000 ?evs, rest, dn)"
    and evrest: "events lstat snapDir rest = drop 1000 ?evs"
    and suff: "\<forall>l \<in> set rest. tokens_suffice l"
    and dn: "dn \<longrightarrow> length ?evs < 1000" "\<not> dn \<longrightarrow> 1000 \<le> length ?evs"
    by auto
  show ?case
  proof (cases dn)
    case True
    with dn have short: "length ?evs < 1000" by simp
    have "GenerateJSON_loop lstat snapDir can_open_json jsonFileCount docs lines
            = Inr (True, if ?evs \<noteq> [] then docs @ [(jsonFileCount, ?evs)] else docs)"
      using batch True short assms(2) by (subst GenerateJSON_loop.simps) (simp add: Let_def)
    moreover have "batches jsonFileCount ?evs = (if ?evs \<noteq> [] then [(jsonFileCount, ?evs)] else [])"
      using short by (simp add: batches_Nil batches_short)
    ultimately show ?thesis by simp
  next
    case False
    with dn have long: "1000 \<le> length ?evs" by simp
    then have ne: "take 1000 ?evs \<noteq> []" by auto
    from GenerateJSON_batch_rest [OF batch] False have "length rest < length lines" by simp
    from less.hyps [OF this suff]
    have rec: "GenerateJSON_loop lstat snapDir can_open_json (Suc jsonFileCount)
                 (docs @ [(jsonFileCount, take 1000 ?evs)]) rest
               = Inr (True, (docs @ [(jsonFileCount, take 1000 ?evs)])
                              @ batches (Suc jsonFileCount) (events lstat snapDir rest))" .
    have "GenerateJSON_loop lstat snapDir can_open_json jsonFileCount docs lines
            = GenerateJSON_loop lstat snapDir can_open_json (Suc jsonFileCount)
                 (docs @ [(jsonFileCount, take 1000 ?evs)]) rest"
      using batch False ne assms(2) by (subst GenerateJSON_loop.simps) (simp add: Let_def)
    with rec evrest long show ?thesis
      by (simp add: batches_long)
  qed
qed

lemma batches_cases:
  obtains (empty) "xs = []" "batches n xs = []"
  | (one) "xs \<noteq> []" "length xs \<le> 1000" "batches n xs = [(n, xs)]"
  | (more) "1000 < length xs" "batches n xs = (n, take 1000 xs) # batches (Suc n) (drop 1000 xs)"
      "drop 1000 xs \<noteq> []"
proof (cases "xs = []")
  case True
  then show ?thesis using empty by (simp add: batches_Nil)
next
  case False
  show ?thesis
  proof (cases "length xs \<le> 1000")
    case True
    with False show ?thesis using one by (simp add: batches_short)
  next
    case False
    then show ?thesis using more by (simp add: batches_long)
  qed
qed

lemma batches_length: "length (batches n xs) = (length xs + 999) div 1000"
proof (induction "length xs" arbitrary: xs n rule: less_induct)
  case less
  show ?case
  proof (cases n xs rule: batches_cases)
    case empty
    then show ?thesis by simp
  next
    case one
    then have "0 < length xs" by simp
    with one have "(length xs + 999) div 1000 = 1" by arith
    with one show ?thesis by simp
  next
    case more
    then have "length (drop 1000 xs) < length xs" by simp
    from less [OF this, of "Suc n"]
    have "length (batches (Suc n) (drop 1000 xs)) = (length xs - 1000 + 999) div 1000"
      by simp
    moreover from more have "(length xs + 999) div 1000 = Suc ((length xs - 1000 + 999) div 1000)"
      by arith
    ultimately show ?thesis using more by simp
  qed
qed

lemma batches_sizes:
  "d \<in> set (batches n xs) \<Longrightarrow> snd d \<noteq> [] \<and> length (snd d) \<le> 1000"
proof (induction "length xs" arbitrary: xs n rule: less_induct)
  case less
  show ?case
  proof (cases n xs rule: batches_cases)
    case empty
    with less.prems show ?thesis by simp
  next
    case one
    with less.prems show ?thesis by simp
  next
    case more
    then have shorter: "length (drop 1000 xs) < length xs" by simp
    from less.prems more have "d = (n, take 1000 xs) \<or> d \<in> set (batches (Suc n) (drop 1000 xs))"
      by simp
    then show ?thesis
    proof
      assume "d = (n, take 1000 xs)"
      with more show ?thesis by auto
    next
      assume "d \<in> set (batches (Suc n) (drop 1000 xs))"
      with less.hyps [OF shorter] show ?thesis .
    qed
  qed
qed

lemma batches_last:
  "xs \<noteq> [] \<Longrightarrow>
   length (snd (last (batches n xs)))
     = (if length xs mod 1000 = 0 then 1000 else length xs mod 1000)"
proof (induction "length xs" arbitrary: xs n rule: less_induct)
  case less
  show ?case
  proof (cases n xs rule: batches_cases)
    case empty
    with less.prems show ?thesis by simp
  next
    case one
    then have "0 < length xs" by simp
    with one have "(if length xs mod 1000 = 0 then 1000 else length xs mod 1000) = length xs"
      by (cases "length xs = 1000") simp_all
    with one show ?thesis by simp
  next
    case more
    then have shorter: "length (drop 1000 xs) < length xs" by simp
    from more have ne: "batches (Suc n) (drop 1000 xs) \<noteq> []"
      by (cases "Suc n" "drop 1000 xs" rule: batches_cases) simp_all
    from more have md: "length xs mod 1000 = (length xs - 1000) mod 1000"
      by (simp add: le_mod_geq)
    from less.hyps [OF shorter more(3), of "Suc n"]
    have "length (snd (last (batches (Suc n) (drop 1000 xs))))
        = (if (length xs - 1000) mod 1000 = 0 then 1000 else (length xs - 1000) mod 1000)"
      by simp
    with more(2) ne md show ?thesis by simp
  qed
qed

lemma batches_numbers: "map fst (batches n xs) = [n..<n + length (batches n xs)]"
proof (induction "length xs" arbitrary: xs n rule: less_induct)
  case less
  show ?case
  proof (cases n xs rule: batches_cases)
    case empty
    then show ?thesis by simp
  next
    case one
    then show ?thesis by simp
  next
    case more
    then have "length (drop 1000 xs) < length xs" by simp
    from less [OF this, of "Suc n"] more show ?thesis by (simp add: upt_rec)
  qed
qed

lemma batches_concat: "concat (map snd (batches n xs)) = xs"
proof (induction "length xs" arbitrary: xs n rule: less_induct)
  case less
  show ?case
  proof (cases n xs rule: batches_cases)
    case empty
    then show ?thesis by simp
  next
    case one
    then show ?thesis by simp
  next
    case more
    then have "length (drop 1000 xs) < length xs" by simp
    from less [OF this, of "Suc n"] more show ?thesis by simp
  qed
qed

lemma events_classifiable:
  "\<forall>l \<in> set lines. tokens_suffice l \<Longrightarrow>
   length (events lstat snapDir lines) = length (filter classifiable lines)"
proof (induction lines)
  case Nil
  then show ?case by simp
next
  case (Cons l lines)
  then have suff: "tokens_suffice l" and IH: "length (events lstat snapDir lines) = length (filter classifiable lines)"
    by simp_all
  from suff obtain r where r: "GenerateJSON_line lstat snapDir l = Inr r"
    by (rule GenerateJSON_line_suffice)
  show ?case
  proof (cases r)
    case None
    with r GenerateJSON_line_classifiable [OF suff, of lstat snapDir] have "\<not> classifiable l"
      by simp
    with r None IH show ?thesis by simp
  next
    case (Some diffItem)
    with r GenerateJSON_line_classifiable [OF suff, of lstat snapDir] have "classifiable l"
      by auto
    with r Some IH show ?thesis by simp
  qed
qed

lemma getlines_file_of_lines:
  "\<forall>l \<in> set ls. CHR 0x0A \<notin> set l \<Longrightarrow> getlines (file_of_lines ls) = ls"
proof (induction ls)
  case Nil
  then show ?case by (simp add: file_of_lines_def getlines_def)
next
  case (Cons l ls)
  then have l: "CHR 0x0A \<notin> set l" and IH: "getlines (file_of_lines ls) = ls"
    by simp_all
  have "file_of_lines (l # ls) = (l @ [CHR 0x0A]) @ file_of_lines ls"
    by (simp add: file_of_lines_def)
  moreover have "terminated (l @ [CHR 0x0A])"
    by (simp add: terminated_def)
  moreover have "getlines (l @ [CHR 0x0A]) = [l]"
    using getlines_from_line [OF l, of "[]"] by (simp add: getlines_def)
  ultimately show ?case
    using IH by (simp add: getlines_append del: append_assoc)
qed

text \<open>
  C7. Let every line of the serialized file have the tokens that its processing reads, and
  let every JSON file be creatable. For \<open>N > 0\<close> classifiable records, \<open>GenerateJSON\<close>
  succeeds and writes \<open>(N + 999) div 1000\<close> documents, that is \<open>N / 1000\<close> rounded up, numbered
  from 0 without gap; each holds at least one and at most 1000 events, the last one
  \<open>N mod 1000\<close> events, or 1000 when \<open>N\<close> is a multiple of 1000; together they hold the events
  of the records in order.
\<close>

theorem GenerateJSON_batch_sizes:
  assumes "\<forall>l \<in> set (getlines bytes). tokens_suffice l"
    and "\<forall>k. can_open_json k"
    and "N = length (filter classifiable (getlines bytes))"
    and "0 < N"
  shows "\<exists>docs. GenerateJSON lstat snapDir can_open_json (Some bytes) = Inr (True, docs) \<and>
           length docs = (N + 999) div 1000 \<and>
           (\<forall>d \<in> set docs. snd d \<noteq> [] \<and> length (snd d) \<le> 1000) \<and>
           length (snd (last docs)) = (if N mod 1000 = 0 then 1000 else N mod 1000) \<and>
           map fst docs = [0..<length docs] \<and>
           concat (map snd docs) = events lstat snapDir (getlines bytes)"
proof -
  let ?evs = "events lstat snapDir (getlines bytes)"
  let ?docs = "batches 0 ?evs"
  from assms(1,3) have N: "length ?evs = N"
    by (simp add: events_classifiable)
  with assms(4) have ne: "?evs \<noteq> []" by auto
  have "GenerateJSON lstat snapDir can_open_json (Some bytes) = Inr (True, ?docs)"
    using GenerateJSON_loop_batches [OF assms(1,2), of lstat snapDir 0 "[]"]
    by (simp add: GenerateJSON_def)
  moreover have "length ?docs = (N + 999) div 1000"
    using N by (simp add: batches_length)
  moreover have "\<forall>d \<in> set ?docs. snd d \<noteq> [] \<and> length (snd d) \<le> 1000"
    using batches_sizes by blast
  moreover have "length (snd (last ?docs)) = (if N mod 1000 = 0 then 1000 else N mod 1000)"
    using batches_last [OF ne, of 0] N by simp
  moreover have "map fst ?docs = [0..<length ?docs]"
    using batches_numbers [of 0 ?evs] by simp
  moreover have "concat (map snd ?docs) = ?evs"
    by (rule batches_concat)
  ultimately show ?thesis by blast
qed

theorem GenerateJSON_batch_sizes_witness:
  "\<exists>docs. GenerateJSON no_stat ''/snap'' every_json (Some many_deletes) = Inr (True, docs) \<and>
     length docs = 3 \<and>
     (\<forall>d \<in> set docs. snd d \<noteq> [] \<and> length (snd d) \<le> 1000) \<and>
     length (snd (last docs)) = 500 \<and>
     map fst docs = [0..<length docs] \<and>
     concat (map snd docs) = events no_stat ''/snap'' (getlines many_deletes)"
proof -
  have nl: "CHR 0x0A \<notin> set ''FILE_DELETE /a''" by simp
  have lines: "getlines many_deletes = replicate 2500 ''FILE_DELETE /a''"
    unfolding many_deletes_def using nl by (intro getlines_file_of_lines) simp
  have suff: "tokens_suffice ''FILE_DELETE /a''" by code_simp
  have cl: "classifiable ''FILE_DELETE /a''" by code_simp
  have 1: "\<forall>l \<in> set (getlines many_deletes). tokens_suffice l"
    using suff by (simp add: lines)
  have 2: "\<forall>k. every_json k" by (simp add: every_json_def)
  have 3: "2500 = length (filter classifiable (getlines many_deletes))"
    using cl by (simp add: lines)
  from GenerateJSON_batch_sizes [OF 1 2 3, of no_stat "''/snap''"] show ?thesis by simp
qed

section \<open>Properties of the Pagination Driver\<close>

lemma cookie_scan_three:
  "3 \<le> length (tokens l) \<Longrightarrow> cookie_scan l = (tokens l ! 1, tokens l ! 2)"
  by (erule three_tokens) (simp add: cookie_scan_def extraction_def)

lemma ReadRawDiff_lines_data:
  "data_line l \<Longrightarrow>
   ReadRawDiff_lines st (l # ls) = ReadRawDiff_lines (st\<lparr>startPoint := second_token l\<rparr>) ls"
  by (simp add: data_line_def second_token_def cookie_scan_three)

lemma ReadRawDiff_lines_eob:
  "eob_line l \<Longrightarrow> ReadRawDiff_lines st (l # ls) = st\<lparr>readNum := readNum st + 1\<rparr>"
  by (simp add: eob_line_def cookie_scan_three)

lemma ReadRawDiff_lines_pre:
  "\<forall>l \<in> set pre. data_line l \<Longrightarrow>
   ReadRawDiff_lines st (pre @ ls)
     = ReadRawDiff_lines (st\<lparr>startPoint := cookie_after (startPoint st) pre\<rparr>) ls"
proof (induction pre arbitrary: st)
  case Nil
  then show ?case by (simp add: cookie_after_def)
next
  case (Cons l pre)
  then have l: "data_line l" and rest: "\<forall>l \<in> set pre. data_line l" by simp_all
  have "ReadRawDiff_lines st ((l # pre) @ ls)
          = ReadRawDiff_lines (st\<lparr>startPoint := second_token l\<rparr>) (pre @ ls)"
    using ReadRawDiff_lines_data [OF l, of st "pre @ ls"] by (simp del: ReadRawDiff_lines.simps)
  also have "\<dots> = ReadRawDiff_lines
      (st\<lparr>startPoint := cookie_after (second_token l) pre\<rparr>) ls"
    using Cons.IH [OF rest, of "st\<lparr>startPoint := second_token l\<rparr>"] by simp
  also have "cookie_after (second_token l) pre = cookie_after (startPoint st) (l # pre)"
    by (simp add: cookie_after_def)
  finally show ?case .
qed

lemma ReadRawDiff_lines_requested: "requested (ReadRawDiff_lines st ls) = requested st"
proof (induction ls arbitrary: st)
  case Nil
  then show ?case by simp
next
  case (Cons l ls)
  obtain c s where cs: "cookie_scan l = (c, s)" by (cases "cookie_scan l")
  with Cons show ?case by simp
qed

lemma ReadRawDiff_page_requested:
  "ReadRawDiff_page w snapDir snap1 snap2 st = Inr st' \<Longrightarrow>
   requested st' = requested st @ [diffFileName snapDir snap1 snap2 (startPoint st)]"
  by (auto simp: ReadRawDiff_page_def Let_def ReadRawDiff_lines_requested
        split: prod.splits if_splits read_outcome.splits)

text \<open>
  C8, as the code has it. Let the lines \<open>pre\<close> each have at least three tokens, the third
  no sentinel. Each of them sets the running cookie to its second token, so that after
  them the cookie is the second token of the last one (or unchanged when there is none),
  and this holds at the end of a page without sentinel too. A following line whose third
  token is \<open>EOB\<close> ends the page and leaves the cookie as it is, whatever follows it; and the
  page that the next round asks for is named by that cookie.
\<close>

theorem ReadRawDiff_running_cookie:
  assumes "\<forall>l \<in> set pre. data_line l"
  shows "ReadRawDiff_lines st pre = st\<lparr>startPoint := cookie_after (startPoint st) pre\<rparr> \<and>
         (eob_line sentinel \<longrightarrow>
            ReadRawDiff_lines st (pre @ sentinel # post)
              = st\<lparr>startPoint := cookie_after (startPoint st) pre, readNum := readNum st + 1\<rparr> \<and>
            (\<forall>st'. ReadRawDiff_page w snapDir snap1 snap2
                       (ReadRawDiff_lines st (pre @ sentinel # post)) = Inr st' \<longrightarrow>
                   last (requested st')
                     = diffFileName snapDir snap1 snap2 (cookie_after (startPoint st) pre)))"
proof (intro conjI impI allI)
  show "ReadRawDiff_lines st pre = st\<lparr>startPoint := cookie_after (startPoint st) pre\<rparr>"
    using ReadRawDiff_lines_pre [OF assms, of st "[]"] by simp
next
  assume eob: "eob_line sentinel"
  show after: "ReadRawDiff_lines st (pre @ sentinel # post)
      = st\<lparr>startPoint := cookie_after (startPoint st) pre, readNum := readNum st + 1\<rparr>"
    using ReadRawDiff_lines_pre [OF assms, of st "sentinel # post"]
      ReadRawDiff_lines_eob [OF eob, of "st\<lparr>startPoint := cookie_after (startPoint st) pre\<rparr>" post]
    by (simp del: ReadRawDiff_lines.simps)
  fix st'
  assume "ReadRawDiff_page w snapDir snap1 snap2
            (ReadRawDiff_lines st (pre @ sentinel # post)) = Inr st'"
  from ReadRawDiff_page_requested [OF this]
  show "last (requested st') = diffFileName snapDir snap1 snap2 (cookie_after (startPoint st) pre)"
    by (simp add: after del: ReadRawDiff_lines.simps)
qed

theorem ReadRawDiff_running_cookie_witness:
  "ReadRawDiff_lines initial_pager [''5 obj123 FILE_DELETE /a/b.txt'', ''-2 obj9 SYM_CM /a/link /a/target'']
     = initial_pager\<lparr>startPoint := ''obj9''\<rparr> \<and>
   ReadRawDiff_lines initial_pager
       ([''5 obj123 FILE_DELETE /a/b.txt'', ''-2 obj9 SYM_CM /a/link /a/target''] @ ''7 9 EOB'' # [''1 x FILE_C /y''])
     = initial_pager\<lparr>startPoint := ''obj9'', readNum := 1\<rparr> \<and>
   (\<exists>st'. ReadRawDiff_page one_open_world ''/snap'' ''a'' ''b''
              (ReadRawDiff_lines initial_pager
                ([''5 obj123 FILE_DELETE /a/b.txt'', ''-2 obj9 SYM_CM /a/link /a/target'']
                   @ ''7 9 EOB'' # [''1 x FILE_C /y''])) = Inr st' \<and>
          last (requested st') = ''/snap/a^b^obj9'')"
proof -
  let ?pre = "[''5 obj123 FILE_DELETE /a/b.txt'', ''-2 obj9 SYM_CM /a/link /a/target'']"
  have d: "\<forall>l \<in> set ?pre. data_line l"
    by code_simp
  have e: "eob_line ''7 9 EOB''"
    by code_simp
  have c: "cookie_after (startPoint initial_pager) ?pre = ''obj9''"
    by code_simp
  have n: "diffFileName ''/snap'' ''a'' ''b'' ''obj9'' = ''/snap/a^b^obj9''"
    by code_simp
  have r: "readNum initial_pager + 1 = 1"
    by (simp add: initial_pager_def)
  note inst = ReadRawDiff_running_cookie [OF d, of initial_pager "''7 9 EOB''" "[''1 x FILE_C /y'']"
         one_open_world "''/snap''" "''a''" "''b''", unfolded c n r]
  from inst have 1: "ReadRawDiff_lines initial_pager ?pre = initial_pager\<lparr>startPoint := ''obj9''\<rparr>"
    by blast
  from inst e have 2: "ReadRawDiff_lines initial_pager (?pre @ ''7 9 EOB'' # [''1 x FILE_C /y''])
     = initial_pager\<lparr>startPoint := ''obj9'', readNum := 1\<rparr>"
    by blast
  have op: "OpenStreamUnreliable (\<lambda>k. Opened) = (0, 1)"
    by (simp add: OpenStreamUnreliable_def OpenStreamUnreliable_loop.simps)
  have "\<exists>st'. ReadRawDiff_page one_open_world ''/snap'' ''a'' ''b''
              (initial_pager\<lparr>startPoint := ''obj9'', readNum := 1\<rparr>) = Inr st'"
    by (simp add: ReadRawDiff_page_def one_open_world_def Let_def op)
  then obtain st' where 3: "ReadRawDiff_page one_open_world ''/snap'' ''a'' ''b''
       (ReadRawDiff_lines initial_pager (?pre @ ''7 9 EOB'' # [''1 x FILE_C /y''])) = Inr st'"
    unfolding 2 by blast
  with inst e have "last (requested st') = ''/snap/a^b^obj9''"
    by blast
  with 1 2 3 show ?thesis by blast
qed

text \<open>
  C8 as stated fails. After the lines \<open>-2 obj9 SYM_CM /a/link /a/target\<close> and \<open>7 9 EOB\<close>
  the cookie is \<open>obj9\<close>, the second token of the first line. Counting back from the
  sentinel through the tokens of both lines, the third token is \<open>/a/target\<close>; counting
  back from the end of the line before the sentinel's, it is \<open>SYM_CM\<close>; and the cookie is
  none of the tokens of the line that holds the sentinel.
\<close>

theorem ReadRawDiff_cookie_counterexample:
  "startPoint (ReadRawDiff_lines initial_pager [''-2 obj9 SYM_CM /a/link /a/target'', ''7 9 EOB''])
     = ''obj9'' \<and>
   (tokens ''-2 obj9 SYM_CM /a/link /a/target'' @ tokens ''7 9 EOB'') ! 7 = ''EOB'' \<and>
   (tokens ''-2 obj9 SYM_CM /a/link /a/target'' @ tokens ''7 9 EOB'') ! (7 - 3) = ''/a/target'' \<and>
   length (tokens ''-2 obj9 SYM_CM /a/link /a/target'') = 5 \<and>
   tokens ''-2 obj9 SYM_CM /a/link /a/target'' ! (5 - 3) = ''SYM_CM'' \<and>
   ''obj9'' \<notin> set (tokens ''7 9 EOB'')"
  by code_simp

end
